theory Spec2Isabelle
  imports Complex_Main "HOL-Library.Sublist"
begin

section \<open>Growth-curve analysis engines: a shallow embedding\<close>

text \<open>
  The two engines of the repository are \<^verbatim>\<open>find_baseline_points\<close>
  (file \<^verbatim>\<open>blank-selection-test02.py\<close>) and \<^verbatim>\<open>detect_log_phase\<close> with its helper
  \<^verbatim>\<open>_linear_regression\<close> (file \<^verbatim>\<open>log_phase_tester_smoothed.py\<close>).

  Conventions of the embedding:
  \<^item> A Python float is an IEEE double. A finite double is modelled by the real number it
    denotes, and comparisons of doubles (\<^verbatim>\<open><=\<close>, \<^verbatim>\<open>>=\<close>, \<^verbatim>\<open>==\<close>, \<^verbatim>\<open>min\<close>, \<^verbatim>\<open>max\<close>,
    \<^verbatim>\<open>sorted\<close>, \<^verbatim>\<open>abs\<close>) are exact, so they are the comparisons of the reals. The arithmetic
    of doubles rounds: every sum, difference, product, quotient, square, \<^verbatim>\<open>sum()\<close> and
    \<^verbatim>\<open>math.log\<close> of the source goes through an operation of the record \<open>float_ops\<close>,
    which each function that computes with floats takes as its first argument \<open>fl\<close>.
    Nothing is assumed about these operations, so a theorem stated for every \<open>fl\<close> holds
    however the machine rounds. An operation whose double result is infinite returns
    \<open>FLOAT_INF\<close> or \<open>- FLOAT_INF\<close>. NaN has no counterpart here: on finite readings and
    times the source produces a NaN only inside \<^verbatim>\<open>_linear_regression\<close>, from an infinite
    operand, that is after a sum or product of times has overflowed; such runs are not
    described.
  \<^item> A decimal constant of the source or of an example, such as \<^verbatim>\<open>0.001\<close>, is written as
    the rational it names; on the machine it is the double nearest to it.
  \<^item> Python ints that are options of a call (\<^verbatim>\<open>min_consecutive\<close>, \<^verbatim>\<open>window_size\<close>) are
    \<^typ>\<open>int\<close>; list indices produced by \<^verbatim>\<open>enumerate\<close> and \<^verbatim>\<open>range\<close> are \<^typ>\<open>nat\<close>.
  \<^item> Every exception the source can raise is a value \<open>Inl e\<close>; a normal return is \<open>Inr r\<close>.
  \<^item> \<^verbatim>\<open>None\<close> is \<open>None\<close> of an option type.
  \<^item> A Python \<^verbatim>\<open>set\<close> of indices is a list used only through membership; \<^verbatim>\<open>sorted(s)\<close>
    is \<open>sort\<close> of that (duplicate-free) list.
  \<^item> A \<^verbatim>\<open>defaultdict(list)\<close> is an association list in insertion order, which is the
    iteration order of a Python dict.
  \<^item> A long source function is cut into stages, one definition per stage, each named
    after the lines it embeds; the stages are put together in the definition that
    carries the source's name.
  \<^item> The \<^verbatim>\<open>while\<close> loop of the cleanup has no bound in the source, so the baseline
    engine returns an option: \<open>None\<close> would mean that the call does not return.

  The older file \<^verbatim>\<open>blank-selection-test0.py\<close> has the same \<^verbatim>\<open>find_baseline_points\<close> up to
  the pre-baseline exclusion and then a greedy cleanup instead of the dynamic program;
  that cleanup is embedded as \<open>greedy_cleanup\<close>.
\<close>

datatype py_error = ValueError | ZeroDivisionError | IndexError | StatisticsError | OverflowError

subsection \<open>Floating-point arithmetic\<close>

text \<open>
  The rounded operations of the source: \<^verbatim>\<open>a + b\<close>, \<^verbatim>\<open>a - b\<close>, \<^verbatim>\<open>a * b\<close>, \<^verbatim>\<open>a / b\<close> for a
  divisor that is not zero, \<^verbatim>\<open>x ** 2\<close> (which raises \<^verbatim>\<open>OverflowError\<close> when the square is
  out of range: \<open>None\<close>), the built-in \<^verbatim>\<open>sum\<close> of a non-empty sequence of floats, and
  \<^verbatim>\<open>math.log\<close> of a positive float.
\<close>

record float_ops =
  f_add :: "real \<Rightarrow> real \<Rightarrow> real"
  f_sub :: "real \<Rightarrow> real \<Rightarrow> real"
  f_mul :: "real \<Rightarrow> real \<Rightarrow> real"
  f_div :: "real \<Rightarrow> real \<Rightarrow> real"
  f_sq :: "real \<Rightarrow> real option"
  f_sum :: "real list \<Rightarrow> real"
  f_log :: "real \<Rightarrow> real"

text \<open>
  The arithmetic that does not round, with \<open>lg\<close> for the logarithm. A run of the
  source on doubles is a run of the embedding under this arithmetic whenever every
  intermediate result of the run is a double.
\<close>

definition exact_with :: "(real \<Rightarrow> real) \<Rightarrow> float_ops" where
  "exact_with lg =
     \<lparr>f_add = (+), f_sub = (-), f_mul = (*), f_div = (/), f_sq = (\<lambda>x. Some (x * x)),
      f_sum = sum_list, f_log = lg\<rparr>"

definition exact_arith :: float_ops where
  "exact_arith = exact_with ln"

text \<open>The real that stands for an infinite double: \<open>2 ^ 1024\<close>, above every finite double.\<close>

definition FLOAT_INF :: real where
  "FLOAT_INF = 179769313486231590772930519078902473361797697894230657273430081157732675805500963132708477322407536021120113879871393357658789768814416622492847430639474124377767893424865485276302219601246094119453082952085005768838150682342462881473913110540827237163350510684586298239947245938479716304835356329624224137216"

subsection \<open>Built-ins used by the engines\<close>

text \<open>\<^verbatim>\<open>min(xs)\<close>: raises \<^verbatim>\<open>ValueError\<close> on an empty sequence.\<close>

definition py_min :: "real list \<Rightarrow> py_error + real" where
  "py_min xs = (case xs of [] \<Rightarrow> Inl ValueError | x # r \<Rightarrow> Inr (fold min r x))"

text \<open>\<^verbatim>\<open>max(xs)\<close>: raises \<^verbatim>\<open>ValueError\<close> on an empty sequence.\<close>

definition py_max :: "real list \<Rightarrow> py_error + real" where
  "py_max xs = (case xs of [] \<Rightarrow> Inl ValueError | x # r \<Rightarrow> Inr (fold max r x))"

text \<open>\<^verbatim>\<open>max(xs, key=f)\<close>: the first element whose key is maximal.\<close>

fun max_by_from :: "('a \<Rightarrow> 'k::linorder) \<Rightarrow> 'a \<Rightarrow> 'a list \<Rightarrow> 'a" where
  "max_by_from key best [] = best"
| "max_by_from key best (x # xs) =
     max_by_from key (if key best < key x then x else best) xs"

definition py_max_by :: "('a \<Rightarrow> 'k::linorder) \<Rightarrow> 'a list \<Rightarrow> py_error + 'a" where
  "py_max_by key xs =
     (case xs of [] \<Rightarrow> Inl ValueError | x # r \<Rightarrow> Inr (max_by_from key x r))"

text \<open>
  \<^verbatim>\<open>int(x)\<close> on a float truncates towards zero, and raises \<^verbatim>\<open>OverflowError\<close> on an
  infinite float. The result is a Python int, which has no bound.
\<close>

definition py_int :: "real \<Rightarrow> py_error + int" where
  "py_int x =
     (if FLOAT_INF \<le> \<bar>x\<bar> then Inl OverflowError
      else Inr (if 0 \<le> x then \<lfloor>x\<rfloor> else \<lceil>x\<rceil>))"

text \<open>Float division: \<^verbatim>\<open>ZeroDivisionError\<close> on a zero divisor.\<close>

definition py_div :: "float_ops \<Rightarrow> real \<Rightarrow> real \<Rightarrow> py_error + real" where
  "py_div fl a b = (if b = 0 then Inl ZeroDivisionError else Inr (f_div fl a b))"

text \<open>\<^verbatim>\<open>sum(xs)\<close>: the int \<open>0\<close> for an empty sequence.\<close>

definition py_sum :: "float_ops \<Rightarrow> real list \<Rightarrow> real" where
  "py_sum fl xs = (if xs = [] then 0 else f_sum fl xs)"

text \<open>
  \<^verbatim>\<open>statistics.median\<close>: the middle element of the sorted data, \<^verbatim>\<open>(a + b) / 2\<close> for the
  two middle elements when their number is even, \<^verbatim>\<open>StatisticsError\<close> when there is none.
\<close>

definition median :: "float_ops \<Rightarrow> real list \<Rightarrow> py_error + real" where
  "median fl data =
     (let s = sort data; n = length s in
      if n = 0 then Inl StatisticsError
      else if n mod 2 = 1 then Inr (s ! (n div 2))
      else Inr (f_div fl (f_add fl (s ! (n div 2 - 1)) (s ! (n div 2))) 2))"

subsection \<open>Baseline engine: \<^verbatim>\<open>find_baseline_points\<close>\<close>

definition T_PRE :: real where "T_PRE = 45"
definition BIN_WIDTH :: real where "BIN_WIDTH = 1 / 1000"
definition TOL :: real where "TOL = 1 / 1000"
definition MIN_CONSECUTIVE :: int where "MIN_CONSECUTIVE = 3"
definition MONO_EPS :: real where "MONO_EPS = 0"
definition MONO_T_MAX :: real where "MONO_T_MAX = 400"

type_synonym baseline_result = "nat list \<times> real option \<times> nat list"

text \<open>\<^verbatim>\<open>pre_indices = [i for i, ti in enumerate(t) if ti <= t_pre]\<close>\<close>

definition pre_indices_of :: "real list \<Rightarrow> real \<Rightarrow> nat list" where
  "pre_indices_of t t_pre = [i \<leftarrow> [0..<length t]. t ! i \<le> t_pre]"

text \<open>\<^verbatim>\<open>bins_dict[bin_index].append(idx)\<close> on an insertion-ordered dictionary.\<close>

fun bins_append :: "(int \<times> nat list) list \<Rightarrow> int \<Rightarrow> nat \<Rightarrow> (int \<times> nat list) list" where
  "bins_append [] b idx = [(b, [idx])]"
| "bins_append ((k, v) # rest) b idx =
     (if k = b then (k, v @ [idx]) # rest else (k, v) # bins_append rest b idx)"

text \<open>\<^verbatim>\<open>bin_index = int((val - y_min) / bin_width)\<close>\<close>

definition bin_index_of :: "float_ops \<Rightarrow> real list \<Rightarrow> real \<Rightarrow> real \<Rightarrow> nat \<Rightarrow> py_error + int" where
  "bin_index_of fl y y_min bin_width idx =
     (case py_div fl (f_sub fl (y ! idx) y_min) bin_width of
        Inl e \<Rightarrow> Inl e
      | Inr q \<Rightarrow> py_int q)"

text \<open>The loop that fills the bins; it ends at the first index whose bin cannot be computed.\<close>

fun fill_bins_loop ::
  "(nat \<Rightarrow> py_error + int) \<Rightarrow> nat list \<Rightarrow> (int \<times> nat list) list \<Rightarrow> py_error + (int \<times> nat list) list" where
  "fill_bins_loop bin_of [] bins_dict = Inr bins_dict"
| "fill_bins_loop bin_of (idx # rest) bins_dict =
     (case bin_of idx of
        Inl e \<Rightarrow> Inl e
      | Inr bin_index \<Rightarrow> fill_bins_loop bin_of rest (bins_append bins_dict bin_index idx))"

definition fill_bins ::
  "float_ops \<Rightarrow> real list \<Rightarrow> real \<Rightarrow> real \<Rightarrow> nat list \<Rightarrow> py_error + (int \<times> nat list) list" where
  "fill_bins fl y y_min bin_width pre_indices =
     fill_bins_loop (bin_index_of fl y y_min bin_width) pre_indices []"

text \<open>
  The loop that cuts the sorted candidates into runs of adjacent indices; \<open>cur\<close> is
  \<^verbatim>\<open>current_run\<close>, never empty.
\<close>

fun runs_loop :: "nat list list \<Rightarrow> nat list \<Rightarrow> nat list \<Rightarrow> nat list list" where
  "runs_loop runs cur [] = runs @ [cur]"
| "runs_loop runs cur (idx # rest) =
     (if idx = last cur + 1 then runs_loop runs (cur @ [idx]) rest
      else runs_loop (runs @ [cur]) [idx] rest)"

definition candidate_runs :: "nat list \<Rightarrow> nat list list" where
  "candidate_runs candidate_indices =
     runs_loop [] [hd candidate_indices] (tl candidate_indices)"

text \<open>
  The monotonic cleanup (lines 159 to 194 of the source). The inner loop over \<open>i\<close> and the
  outer loop over \<open>j\<close> update the arrays \<^verbatim>\<open>dp_len\<close> and \<^verbatim>\<open>prev_idx\<close>; the tolerance
  \<^verbatim>\<open>MONO_EPS\<close> and the time limit \<^verbatim>\<open>MONO_T_MAX\<close> are module constants of the source and
  parameters of the helper functions here. The sum \<^verbatim>\<open>vals[j] + MONO_EPS\<close> of the test is
  written as the sum of the reals: the constant of the source is \<^verbatim>\<open>0.000\<close>, the engine
  uses the helper functions at that value only, and \<open>x + 0.0\<close> is \<open>x\<close> on doubles.
\<close>

definition dp_inner_step :: "real list \<Rightarrow> real \<Rightarrow> nat \<Rightarrow> nat \<Rightarrow> nat list \<times> int list \<Rightarrow> nat list \<times> int list" where
  "dp_inner_step vals eps j i st =
     (case st of (dp_len, prev_idx) \<Rightarrow>
        if vals ! i \<le> vals ! j + eps \<and> dp_len ! i + 1 > dp_len ! j
        then (dp_len[j := dp_len ! i + 1], prev_idx[j := int i])
        else (dp_len, prev_idx))"

definition dp_outer_step :: "real list \<Rightarrow> real \<Rightarrow> nat \<Rightarrow> nat list \<times> int list \<times> nat \<Rightarrow> nat list \<times> int list \<times> nat" where
  "dp_outer_step vals eps j st =
     (case st of (dp_len, prev_idx, best_end) \<Rightarrow>
        (case fold (dp_inner_step vals eps j) [0..<j] (dp_len, prev_idx) of
           (dp_len', prev_idx') \<Rightarrow>
             (dp_len', prev_idx', if dp_len' ! j > dp_len' ! best_end then j else best_end)))"

definition dp_table :: "real list \<Rightarrow> real \<Rightarrow> nat list \<times> int list \<times> nat" where
  "dp_table vals eps =
     (let m = length vals in
      fold (dp_outer_step vals eps) [0..<m] (replicate m 1, replicate m (- 1), 0))"

text \<open>
  \<^verbatim>\<open>while k != -1: keep_local_positions.add(k); k = prev_idx[k]\<close>. The loop ends only
  when the chain of predecessors reaches \<open>-1\<close>, so the model is a partial function:
  \<open>None\<close> means the loop does not return.
\<close>

partial_function (option) backtrack :: "int list \<Rightarrow> int \<Rightarrow> nat list \<Rightarrow> nat list option" where
  "backtrack prev_idx k keep =
     (if k = - 1 then Some keep
      else backtrack prev_idx (prev_idx ! nat k) (nat k # keep))"

declare backtrack.simps [code]

definition mono_indices_of :: "real list \<Rightarrow> real list \<Rightarrow> real \<Rightarrow> nat \<Rightarrow> nat list \<Rightarrow> nat list" where
  "mono_indices_of t y t_max start_idx excluded_indices =
     [i \<leftarrow> [start_idx..<length y]. t ! i \<le> t_max \<and> i \<notin> set excluded_indices]"

definition mono_cleanup ::
  "real list \<Rightarrow> real list \<Rightarrow> real \<Rightarrow> real \<Rightarrow> nat \<Rightarrow> nat list \<Rightarrow> (py_error + nat list) option" where
  "mono_cleanup t y eps t_max start_idx excluded_indices =
     (if start_idx < length y \<and> length t < length y then Some (Inl IndexError)
      else
        let mono_indices = mono_indices_of t y t_max start_idx excluded_indices in
        if length mono_indices \<le> 1 then Some (Inr excluded_indices)
        else
          let vals = map (\<lambda>i. y ! i) mono_indices in
          (case dp_table vals eps of (dp_len, prev_idx, best_end) \<Rightarrow>
             (case backtrack prev_idx (int best_end) [] of
                None \<Rightarrow> None
              | Some keep_local_positions \<Rightarrow>
                  let keep_global_indices = map (\<lambda>pos. mono_indices ! pos) keep_local_positions
                  in Some (Inr (excluded_indices @
                        [idx \<leftarrow> mono_indices. idx \<notin> set keep_global_indices])))))"


text \<open>
  The cleanup of the older file \<^verbatim>\<open>blank-selection-test0.py\<close> (lines 199 to 210), over
  \<^verbatim>\<open>enumerate(y)\<close>: a reading below the running maximum of the readings kept so far
  minus the tolerance is excluded. There the tolerance is the module constant
  \<^verbatim>\<open>MONO_EPS = 0.001\<close>.
\<close>

definition MONO_EPS_test0 :: real where "MONO_EPS_test0 = 1 / 1000"

fun greedy_loop :: "float_ops \<Rightarrow> real \<Rightarrow> real option \<Rightarrow> nat list \<Rightarrow> (nat \<times> real) list \<Rightarrow> nat list" where
  "greedy_loop fl eps prev excluded_indices [] = excluded_indices"
| "greedy_loop fl eps prev excluded_indices ((idx, v) # rest) =
     (if idx \<in> set excluded_indices then greedy_loop fl eps prev excluded_indices rest
      else
        (case prev of
           None \<Rightarrow> greedy_loop fl eps (Some v) excluded_indices rest
         | Some p \<Rightarrow>
             (if v < f_sub fl p eps then greedy_loop fl eps prev (excluded_indices @ [idx]) rest
              else greedy_loop fl eps (Some (max p v)) excluded_indices rest)))"

definition greedy_cleanup :: "float_ops \<Rightarrow> real \<Rightarrow> real list \<Rightarrow> nat list \<Rightarrow> nat list" where
  "greedy_cleanup fl eps y excluded_indices =
     sort (greedy_loop fl eps None excluded_indices (enumerate 0 y))"

text \<open>
  Lines 111 to 125: the histogram of the pre-window values and the median of its fullest
  bin. \<open>Inr None\<close> stands for the return of \<^verbatim>\<open>[], None, []\<close> on an empty histogram.
\<close>

definition histogram_level :: "float_ops \<Rightarrow> real list \<Rightarrow> real \<Rightarrow> nat list \<Rightarrow> py_error + real option" where
  "histogram_level fl y bin_width pre_indices =
     (if \<exists>i \<in> set pre_indices. length y \<le> i then Inl IndexError
      else
        (case py_min (map (\<lambda>i. y ! i) pre_indices) of
           Inl e \<Rightarrow> Inl e
         | Inr y_min \<Rightarrow>
             (case fill_bins fl y y_min bin_width pre_indices of
                Inl e \<Rightarrow> Inl e
              | Inr bins_dict \<Rightarrow>
                  (if bins_dict = [] then Inr None
                   else
                     (case py_max_by (\<lambda>kv. length (snd kv)) bins_dict of
                        Inl e \<Rightarrow> Inl e
                      | Inr kv \<Rightarrow>
                          (case median fl (map (\<lambda>i. y ! i) (snd kv)) of
                             Inl e \<Rightarrow> Inl e
                           | Inr baseline_level \<Rightarrow> Inr (Some baseline_level)))))))"

text \<open>Line 127: the pre-window indices within \<open>tol\<close> of the level, sorted.\<close>

definition candidates_of :: "float_ops \<Rightarrow> real list \<Rightarrow> real \<Rightarrow> real \<Rightarrow> nat list \<Rightarrow> nat list" where
  "candidates_of fl y baseline_level tol pre_indices =
     sort [i \<leftarrow> pre_indices. \<bar>f_sub fl (y ! i) baseline_level\<bar> \<le> tol]"

text \<open>Lines 131 to 145: the longest run that is long enough, or else every candidate.\<close>

definition select_baseline :: "nat list \<Rightarrow> int \<Rightarrow> py_error + nat list" where
  "select_baseline candidate_indices min_consecutive =
     (let runs = candidate_runs candidate_indices;
          valid_runs = [run \<leftarrow> runs. int (length run) \<ge> min_consecutive]
      in if valid_runs = [] then Inr candidate_indices else py_max_by length valid_runs)"

text \<open>Lines 147 to 154: early pre-window points away from the level.\<close>

definition excluded_pre_of :: "float_ops \<Rightarrow> real list \<Rightarrow> real \<Rightarrow> real \<Rightarrow> nat list \<Rightarrow> nat list \<Rightarrow> nat list" where
  "excluded_pre_of fl y baseline_level tol pre_indices baseline_indices =
     (if baseline_indices \<noteq> [] then
        [idx \<leftarrow> pre_indices.
           idx < Min (set baseline_indices) \<and> \<bar>f_sub fl (y ! idx) baseline_level\<bar> > tol]
      else [])"

definition baseline_after_level ::
  "float_ops \<Rightarrow> real list \<Rightarrow> real list \<Rightarrow> real \<Rightarrow> int \<Rightarrow> nat list \<Rightarrow> real \<Rightarrow> (py_error + baseline_result) option" where
  "baseline_after_level fl t y tol min_consecutive pre_indices baseline_level =
     (let candidate_indices = candidates_of fl y baseline_level tol pre_indices in
      if candidate_indices = [] then Some (Inr ([], Some baseline_level, []))
      else
        (case select_baseline candidate_indices min_consecutive of
           Inl e \<Rightarrow> Some (Inl e)
         | Inr baseline_indices \<Rightarrow>
             (let excluded_indices =
                    excluded_pre_of fl y baseline_level tol pre_indices baseline_indices
              in
              if baseline_indices = []
              then Some (Inr (baseline_indices, Some baseline_level, sort excluded_indices))
              else
                (case mono_cleanup t y MONO_EPS MONO_T_MAX (Min (set baseline_indices))
                        excluded_indices of
                   None \<Rightarrow> None
                 | Some r \<Rightarrow>
                     (case r of
                        Inl e \<Rightarrow> Some (Inl e)
                      | Inr excluded' \<Rightarrow>
                          Some (Inr (baseline_indices, Some baseline_level, sort excluded')))))))"

definition find_baseline_points ::
  "float_ops \<Rightarrow> real list \<Rightarrow> real list \<Rightarrow> real \<Rightarrow> real \<Rightarrow> real \<Rightarrow> int \<Rightarrow> (py_error + baseline_result) option" where
  "find_baseline_points fl t y t_pre bin_width tol min_consecutive =
     (let pre_indices = pre_indices_of t t_pre in
      if int (length pre_indices) < min_consecutive then Some (Inr ([], None, []))
      else
        (case histogram_level fl y bin_width pre_indices of
           Inl e \<Rightarrow> Some (Inl e)
         | Inr lv \<Rightarrow>
             (case lv of
                None \<Rightarrow> Some (Inr ([], None, []))
              | Some baseline_level \<Rightarrow>
                  baseline_after_level fl t y tol min_consecutive pre_indices baseline_level)))"

subsection \<open>Log-phase engine: \<^verbatim>\<open>_linear_regression\<close> and \<^verbatim>\<open>detect_log_phase\<close>\<close>

definition DEFAULT_WINDOW_SIZE :: int where "DEFAULT_WINDOW_SIZE = 5"
definition DEFAULT_R2_MIN :: real where "DEFAULT_R2_MIN = 98 / 100"
definition DEFAULT_OD_MIN :: real where "DEFAULT_OD_MIN = 1 / 100"
definition DEFAULT_FRAC_K_MAX :: real where "DEFAULT_FRAC_K_MAX = 4 / 10"
definition DEFAULT_MU_REL_MIN :: real where "DEFAULT_MU_REL_MIN = 8 / 10"
definition DEFAULT_MU_REL_MAX :: real where "DEFAULT_MU_REL_MAX = 105 / 100"

text \<open>
  The loop of \<^verbatim>\<open>_linear_regression\<close> that accumulates \<^verbatim>\<open>s_tt\<close> and \<^verbatim>\<open>s_tu\<close> from \<open>0.0\<close>.
\<close>

definition regression_sums :: "float_ops \<Rightarrow> real \<Rightarrow> real \<Rightarrow> real list \<Rightarrow> real list \<Rightarrow> real \<times> real" where
  "regression_sums fl mean_t mean_u T U =
     fold (\<lambda>(ti, ui) (s_tt, s_tu).
             (let dt = f_sub fl ti mean_t; du = f_sub fl ui mean_u
              in (f_add fl s_tt (f_mul fl dt dt), f_add fl s_tu (f_mul fl dt du))))
       (zip T U) (0, 0)"

text \<open>The squares \<^verbatim>\<open>x ** 2\<close> of a sequence; the first square out of range raises.\<close>

fun squares :: "float_ops \<Rightarrow> real list \<Rightarrow> py_error + real list" where
  "squares fl [] = Inr []"
| "squares fl (x # xs) =
     (case f_sq fl x of
        None \<Rightarrow> Inl OverflowError
      | Some q \<Rightarrow> (case squares fl xs of Inl e \<Rightarrow> Inl e | Inr qs \<Rightarrow> Inr (q # qs)))"

text \<open>
  \<^verbatim>\<open>_linear_regression(T, U)\<close>. The source returns the triple \<^verbatim>\<open>(None, None, None)\<close> when it
  gives no fit; that is \<open>Inr None\<close> here, and a fit is \<open>Inr (Some (slope, intercept, r2))\<close>.
  Each of its divisions goes through \<open>py_div\<close>, so a division by zero would show as
  \<open>Inl ZeroDivisionError\<close>.
\<close>

definition linear_regression ::
  "float_ops \<Rightarrow> real list \<Rightarrow> real list \<Rightarrow> py_error + (real \<times> real \<times> real) option" where
  "linear_regression fl T U =
     (let n = length T in
      if n < 2 then Inr None
      else
        (case py_div fl (py_sum fl T) (real n) of
           Inl e \<Rightarrow> Inl e
         | Inr mean_t \<Rightarrow>
             (case py_div fl (py_sum fl U) (real n) of
                Inl e \<Rightarrow> Inl e
              | Inr mean_u \<Rightarrow>
                  (case regression_sums fl mean_t mean_u T U of
                     (s_tt, s_tu) \<Rightarrow>
                       (if s_tt = 0 then Inr None
                        else
                          (case py_div fl s_tu s_tt of
                             Inl e \<Rightarrow> Inl e
                           | Inr slope \<Rightarrow>
                               (let intercept = f_sub fl mean_u (f_mul fl slope mean_t) in
                                (case squares fl (map (\<lambda>ui. f_sub fl ui mean_u) U) of
                                   Inl e \<Rightarrow> Inl e
                                 | Inr tot \<Rightarrow>
                                     (case squares fl
                                             (map (\<lambda>(ti, ui).
                                                     f_sub fl ui (f_add fl (f_mul fl slope ti) intercept))
                                                (zip T U)) of
                                        Inl e \<Rightarrow> Inl e
                                      | Inr res \<Rightarrow>
                                          (let ss_tot = py_sum fl tot; ss_res = py_sum fl res in
                                           if ss_tot = 0 then Inr (Some (slope, intercept, 1))
                                           else
                                             (case py_div fl ss_res ss_tot of
                                                Inl e \<Rightarrow> Inl e
                                              | Inr q \<Rightarrow>
                                                  Inr (Some (slope, intercept, f_sub fl 1 q)))))))))))))"

text \<open>A good window is the tuple \<^verbatim>\<open>(start_idx, end_idx, mu, r2)\<close>.\<close>

type_synonym window = "nat \<times> nat \<times> real \<times> real"

abbreviation win_start :: "window \<Rightarrow> nat" where "win_start w \<equiv> fst w"
abbreviation win_end :: "window \<Rightarrow> nat" where "win_end w \<equiv> fst (snd w)"
abbreviation win_slope :: "window \<Rightarrow> real" where "win_slope w \<equiv> fst (snd (snd w))"

type_synonym log_phase_result = "nat list \<times> real option \<times> real option \<times> real option"

text \<open>\<^verbatim>\<open>valid_indices = [i for i, val in enumerate(y) if val >= od_min]\<close>\<close>

definition valid_indices_of :: "real list \<Rightarrow> real \<Rightarrow> nat list" where
  "valid_indices_of y od_min = [i \<leftarrow> [0..<length y]. y ! i \<ge> od_min]"

text \<open>
  The slice \<^verbatim>\<open>xs[a:b]\<close> of Python: a negative bound counts from the end, and both bounds
  are clamped to the list.
\<close>

definition py_slice :: "'a list \<Rightarrow> int \<Rightarrow> int \<Rightarrow> 'a list" where
  "py_slice xs a b =
     (let n = int (length xs);
          lo = (if a < 0 then max (a + n) 0 else min a n);
          hi = (if b < 0 then max (b + n) 0 else min b n)
      in take (nat (hi - lo)) (drop (nat lo) xs))"

text \<open>\<^verbatim>\<open>tail = valid_indices[-5:] if len(valid_indices) >= 5 else valid_indices\<close>\<close>

definition tail_of :: "nat list \<Rightarrow> nat list" where
  "tail_of valid_indices =
     (if length valid_indices \<ge> 5 then drop (length valid_indices - 5) valid_indices
      else valid_indices)"

text \<open>
  \<^verbatim>\<open>K_est = median(tail_vals) if tail_vals else None\<close>
\<close>

definition k_est_of :: "float_ops \<Rightarrow> real list \<Rightarrow> nat list \<Rightarrow> py_error + real option" where
  "k_est_of fl y valid_indices =
     (let tail_vals = map (\<lambda>i. y ! i) (tail_of valid_indices) in
      if tail_vals \<noteq> [] then
        (case median fl tail_vals of Inl e \<Rightarrow> Inl e | Inr m \<Rightarrow> Inr (Some m))
      else Inr None)"

text \<open>
  The body of the sliding-window loop for one \<open>k\<close>: \<open>Inr None\<close> is a \<^verbatim>\<open>continue\<close>,
  \<open>Inr (Some w)\<close> appends \<open>w\<close> to \<^verbatim>\<open>good_windows\<close>. The plateau test is the source's
  \<^verbatim>\<open>max(Y) / K_est >= frac_k_max\<close>, on the quotient as the machine computes it.
\<close>

definition window_fit ::
  "float_ops \<Rightarrow> real list \<Rightarrow> real list \<Rightarrow> int \<Rightarrow> real \<Rightarrow> real \<Rightarrow> real \<Rightarrow> nat list \<Rightarrow> nat \<Rightarrow> py_error + window option" where
  "window_fit fl t y window_size r2_min frac_k_max K_est valid_indices k =
     (let idxs = py_slice valid_indices (int k) (int k + window_size) in
      if \<exists>i \<in> set idxs. length t \<le> i then Inl IndexError
      else
        (let T = map (\<lambda>i. t ! i) idxs; Y = map (\<lambda>i. y ! i) idxs in
         (case py_max Y of
            Inl e \<Rightarrow> Inl e
          | Inr mx \<Rightarrow>
              (case py_div fl mx K_est of
                 Inl e \<Rightarrow> Inl e
               | Inr ratio \<Rightarrow>
                   (if ratio \<ge> frac_k_max then Inr None
                    else if \<exists>val \<in> set Y. val \<le> 0 then Inr None
                    else
                      (case linear_regression fl T (map (f_log fl) Y) of
                         Inl e \<Rightarrow> Inl e
                       | Inr fit \<Rightarrow>
                           (case fit of
                              None \<Rightarrow> Inr None
                            | Some (slope, intercept, r2) \<Rightarrow>
                                (if slope \<le> 0 then Inr None
                                 else if r2 < r2_min then Inr None
                                 else Inr (Some (hd idxs, last idxs, slope, r2))))))))))"

fun scan_windows :: "(nat \<Rightarrow> py_error + window option) \<Rightarrow> nat list \<Rightarrow> window list \<Rightarrow> py_error + window list" where
  "scan_windows fit [] good_windows = Inr good_windows"
| "scan_windows fit (k # ks) good_windows =
     (case fit k of
        Inl e \<Rightarrow> Inl e
      | Inr r \<Rightarrow>
          (case r of
             None \<Rightarrow> scan_windows fit ks good_windows
           | Some w \<Rightarrow> scan_windows fit ks (good_windows @ [w])))"

text \<open>\<^verbatim>\<open>for k in range(0, len(valid_indices) - window_size + 1)\<close>\<close>

definition window_positions :: "nat list \<Rightarrow> int \<Rightarrow> nat list" where
  "window_positions valid_indices window_size =
     [0..<nat (int (length valid_indices) - window_size + 1)]"

text \<open>Step 5: the windows whose slope is close to \<open>mu_max\<close>, or else the steepest one.\<close>

definition select_log_windows :: "float_ops \<Rightarrow> real \<Rightarrow> real \<Rightarrow> real \<Rightarrow> window list \<Rightarrow> py_error + window list" where
  "select_log_windows fl mu_rel_min mu_rel_max mu_max good_windows =
     (let log_windows =
            [win \<leftarrow> good_windows.
               f_mul fl mu_rel_min mu_max \<le> win_slope win \<and>
               win_slope win \<le> f_mul fl mu_rel_max mu_max]
      in
      if log_windows = [] then
        (case py_max_by win_slope good_windows of Inl e \<Rightarrow> Inl e | Inr w \<Rightarrow> Inr [w])
      else Inr log_windows)"

text \<open>
  Step 6: the mask. An assignment \<^verbatim>\<open>is_log[i] = True\<close> with \<open>i\<close> beyond the mask raises
  \<^verbatim>\<open>IndexError\<close> in the source.
\<close>

definition mark_windows :: "nat \<Rightarrow> window list \<Rightarrow> py_error + bool list" where
  "mark_windows n log_windows =
     (if \<exists>w \<in> set log_windows. win_start w \<le> win_end w \<and> n \<le> win_end w then Inl IndexError
      else Inr (fold (\<lambda>w is_log. fold (\<lambda>i m. m[i := True]) [win_start w..<win_end w + 1] is_log)
                  log_windows (replicate n False)))"

text \<open>Step 7: the runs of the mask, over \<^verbatim>\<open>enumerate(is_log)\<close>.\<close>

fun mask_runs_loop :: "nat list list \<Rightarrow> nat list \<Rightarrow> (nat \<times> bool) list \<Rightarrow> nat list list" where
  "mask_runs_loop runs current [] = (if current \<noteq> [] then runs @ [current] else runs)"
| "mask_runs_loop runs current ((i, flag) # rest) =
     (if flag then mask_runs_loop runs (current @ [i]) rest
      else if current \<noteq> [] then mask_runs_loop (runs @ [current]) [] rest
      else mask_runs_loop runs current rest)"

definition mask_runs :: "bool list \<Rightarrow> nat list list" where
  "mask_runs is_log = mask_runs_loop [] [] (enumerate 0 is_log)"

text \<open>Step 8: the slopes of the selected windows that overlap the chosen run.\<close>

definition mus_in_run_of :: "window list \<Rightarrow> nat list \<Rightarrow> real list" where
  "mus_in_run_of log_windows log_indices =
     map win_slope
       [w \<leftarrow> log_windows. \<not> (win_end w < hd log_indices \<or> win_start w > last log_indices)]"

definition log_phase_from_windows ::
  "float_ops \<Rightarrow> nat \<Rightarrow> real \<Rightarrow> real \<Rightarrow> real \<Rightarrow> window list \<Rightarrow> py_error + log_phase_result" where
  "log_phase_from_windows fl n mu_rel_min mu_rel_max K_est good_windows =
     (if good_windows = [] then Inr ([], None, None, Some K_est)
      else
        (case py_max (map win_slope good_windows) of
           Inl e \<Rightarrow> Inl e
         | Inr mu_max \<Rightarrow>
             (case select_log_windows fl mu_rel_min mu_rel_max mu_max good_windows of
                Inl e \<Rightarrow> Inl e
              | Inr log_windows \<Rightarrow>
                  (case mark_windows n log_windows of
                     Inl e \<Rightarrow> Inl e
                   | Inr is_log \<Rightarrow>
                       (let runs = mask_runs is_log in
                        if runs = [] then Inr ([], Some mu_max, None, Some K_est)
                        else
                          (case py_max_by length runs of
                             Inl e \<Rightarrow> Inl e
                           | Inr log_indices \<Rightarrow>
                               (let mus_in_run = mus_in_run_of log_windows log_indices;
                                    mu_mean = (if mus_in_run \<noteq> []
                                               then f_div fl (py_sum fl mus_in_run)
                                                      (real (length mus_in_run))
                                               else mu_max)
                                in Inr (log_indices, Some mu_max, Some mu_mean, Some K_est))))))))"

definition detect_log_phase ::
  "float_ops \<Rightarrow> real list \<Rightarrow> real list \<Rightarrow> int \<Rightarrow> real \<Rightarrow> real \<Rightarrow> real \<Rightarrow> real \<Rightarrow> real \<Rightarrow> py_error + log_phase_result" where
  "detect_log_phase fl t y window_size r2_min od_min frac_k_max mu_rel_min mu_rel_max =
     (let n = length t in
      if n = 0 then Inr ([], None, None, None)
      else
        (let valid_indices = valid_indices_of y od_min in
         if int (length valid_indices) < window_size + 1 then Inr ([], None, None, None)
         else
           (case k_est_of fl y valid_indices of
              Inl e \<Rightarrow> Inl e
            | Inr ko \<Rightarrow>
                (case ko of
                   None \<Rightarrow> Inr ([], None, None, None)
                 | Some K_est \<Rightarrow>
                     (if K_est \<le> 0 then Inr ([], None, None, None)
                      else
                        (case scan_windows
                                (window_fit fl t y window_size r2_min frac_k_max K_est valid_indices)
                                (window_positions valid_indices window_size) [] of
                           Inl e \<Rightarrow> Inl e
                         | Inr good_windows \<Rightarrow>
                             log_phase_from_windows fl n mu_rel_min mu_rel_max K_est
                               good_windows))))))"

subsection \<open>Notions used in the statements and proofs\<close>

text \<open>The test of the inner loop: the value at position \<open>i\<close> is at most the value at \<open>j\<close> plus the tolerance.\<close>

definition tol_le :: "real list \<Rightarrow> real \<Rightarrow> nat \<Rightarrow> nat \<Rightarrow> bool" where
  "tol_le vals eps i j = (vals ! i \<le> vals ! j + eps)"

text \<open>The invariant of the inner loop for a fixed \<open>j\<close>, after the positions below \<open>I\<close>.\<close>

definition inner_inv :: "real list \<Rightarrow> real \<Rightarrow> nat \<Rightarrow> nat list \<Rightarrow> int list \<Rightarrow> nat \<Rightarrow> nat list \<times> int list \<Rightarrow> bool" where
  "inner_inv vals eps j dp prev I st =
     (case st of (dp', prev') \<Rightarrow>
        length dp' = length dp \<and> length prev' = length prev \<and>
        (\<forall>k. k \<noteq> j \<longrightarrow> dp' ! k = dp ! k \<and> prev' ! k = prev ! k) \<and>
        ((prev' ! j = - 1 \<and> dp' ! j = 1) \<or>
         (\<exists>i<I. prev' ! j = int i \<and> tol_le vals eps i j \<and> dp' ! j = dp ! i + 1)) \<and>
        (\<forall>i<I. tol_le vals eps i j \<longrightarrow> dp ! i + 1 \<le> dp' ! j))"

text \<open>The invariant of the outer loop, after the positions below \<open>J\<close>.\<close>

definition dp_inv :: "real list \<Rightarrow> real \<Rightarrow> nat \<Rightarrow> nat list \<times> int list \<times> nat \<Rightarrow> bool" where
  "dp_inv vals eps J st =
     (case st of (dp, prev, best) \<Rightarrow>
        length dp = length vals \<and> length prev = length vals \<and>
        (\<forall>j<length vals. (prev ! j = - 1 \<and> dp ! j = 1) \<or>
           (\<exists>i<j. prev ! j = int i \<and> tol_le vals eps i j \<and> dp ! j = dp ! i + 1)) \<and>
        (\<forall>j. J \<le> j \<and> j < length vals \<longrightarrow> prev ! j = - 1 \<and> dp ! j = 1) \<and>
        (\<forall>j<J. \<forall>i<j. tol_le vals eps i j \<longrightarrow> dp ! i + 1 \<le> dp ! j) \<and>
        (best < J \<or> (J = 0 \<and> best = 0)) \<and>
        (\<forall>j<J. dp ! j \<le> dp ! best))"

text \<open>A chain: increasing positions of \<open>vals\<close> whose neighbours pass the test of the inner loop.\<close>

definition chain :: "real list \<Rightarrow> real \<Rightarrow> nat list \<Rightarrow> bool" where
  "chain vals eps ps =
     (sorted_wrt (<) ps \<and> successively (tol_le vals eps) ps \<and> (\<forall>p \<in> set ps. p < length vals))"

text \<open>A sequence of values that is non-decreasing up to a downward tolerance \<open>eps\<close>: no value is followed by one more than \<open>eps\<close> below it.\<close>

definition nondecreasing_within :: "real \<Rightarrow> real list \<Rightarrow> bool" where
  "nondecreasing_within eps xs = successively (\<lambda>a b. a \<le> b + eps) xs"

text \<open>The keys of an insertion-ordered dictionary filled from \<open>xs\<close>: each key once, in the order of its first occurrence.\<close>

definition first_keys :: "'a list \<Rightarrow> 'a list" where
  "first_keys xs = rev (remdups (rev xs))"

text \<open>A single block of consecutive indices: each element is the successor of the one before it. The empty list and a single index are blocks.\<close>

definition consecutive_block :: "nat list \<Rightarrow> bool" where
  "consecutive_block xs = successively (\<lambda>a b. b = Suc a) xs"

text \<open>The minimum of the pre-window values, at which the bins are anchored.\<close>

definition pre_min :: "real list \<Rightarrow> nat list \<Rightarrow> real" where
  "pre_min y pre_indices = Min (set (map (\<lambda>i. y ! i) pre_indices))"

text \<open>
  The quotient \<open>(value - minimum) / bin_width\<close> of the pre-window point \<open>i\<close>, as the
  machine computes it.
\<close>

definition bin_quotient :: "float_ops \<Rightarrow> real list \<Rightarrow> real \<Rightarrow> nat list \<Rightarrow> nat \<Rightarrow> real" where
  "bin_quotient fl y bin_width pre_indices i =
     f_div fl (f_sub fl (y ! i) (pre_min y pre_indices)) bin_width"

text \<open>
  The bin of the pre-window point \<open>i\<close>: the integer part of its quotient. For a quotient
  that is not negative this is \<open>floor ((value - minimum) / bin_width)\<close>, the bin of the
  specification.
\<close>

definition bin_key :: "float_ops \<Rightarrow> real list \<Rightarrow> real \<Rightarrow> nat list \<Rightarrow> nat \<Rightarrow> int" where
  "bin_key fl y bin_width pre_indices i =
     (if 0 \<le> bin_quotient fl y bin_width pre_indices i
      then \<lfloor>bin_quotient fl y bin_width pre_indices i\<rfloor>
      else \<lceil>bin_quotient fl y bin_width pre_indices i\<rceil>)"

text \<open>The pre-window points in the bin of point \<open>i\<close>, in the order of the pre-window.\<close>

definition bin_members :: "float_ops \<Rightarrow> real list \<Rightarrow> real \<Rightarrow> nat list \<Rightarrow> nat \<Rightarrow> nat list" where
  "bin_members fl y bin_width pre_indices i =
     [k \<leftarrow> pre_indices.
        bin_key fl y bin_width pre_indices k = bin_key fl y bin_width pre_indices i]"

text \<open>A maximal run of the mask: the flags at \<open>a\<close> up to \<open>b - 1\<close> are set, and the run cannot be extended at either end.\<close>

definition maximal_run :: "bool list \<Rightarrow> nat \<Rightarrow> nat \<Rightarrow> bool" where
  "maximal_run flags a b =
     (a < b \<and> b \<le> length flags \<and> (\<forall>i. a \<le> i \<and> i < b \<longrightarrow> flags ! i) \<and>
      (a = 0 \<or> \<not> flags ! (a - 1)) \<and> (b = length flags \<or> \<not> flags ! b))"

text \<open>What one pass of the sliding-window loop adds to \<^verbatim>\<open>good_windows\<close>.\<close>

definition fit_result :: "py_error + window option \<Rightarrow> window option" where
  "fit_result r = (case r of Inl e \<Rightarrow> None | Inr w \<Rightarrow> w)"

text \<open>A window in the words of the specification: it qualifies when the quotient of its largest value by \<open>K_est\<close> is below \<open>frac_k_max\<close>, all its values are positive, the regression of the logarithm of the values on the times gives a fit, the slope is positive and \<open>R\<^sup>2\<close> is at least \<open>r2_min\<close>; then \<open>Some slope\<close>, and \<open>None\<close> otherwise.\<close>

definition qualifying_slope :: "float_ops \<Rightarrow> real list \<Rightarrow> real list \<Rightarrow> real \<Rightarrow> real \<Rightarrow> real \<Rightarrow> nat list \<Rightarrow> real option" where
  "qualifying_slope fl t y r2_min frac_k_max K_est idxs =
     (if f_div fl (Max (set (map (\<lambda>i. y ! i) idxs))) K_est < frac_k_max \<and> (\<forall>i \<in> set idxs. 0 < y ! i)
      then (case linear_regression fl (map (\<lambda>i. t ! i) idxs) (map (\<lambda>i. f_log fl (y ! i)) idxs) of
              Inl e \<Rightarrow> None
            | Inr fit \<Rightarrow>
                (case fit of
                   None \<Rightarrow> None
                 | Some (slope, intercept, r2) \<Rightarrow>
                     if 0 < slope \<and> r2_min \<le> r2 then Some slope else None))
      else None)"

text \<open>A slope in the selection band \<open>[mu_rel_min * mu_max, mu_rel_max * mu_max]\<close>, with the products as the machine computes them.\<close>

definition within_band :: "float_ops \<Rightarrow> real \<Rightarrow> real \<Rightarrow> real \<Rightarrow> real \<Rightarrow> bool" where
  "within_band fl mu_rel_min mu_rel_max mu_max slope =
     (f_mul fl mu_rel_min mu_max \<le> slope \<and> slope \<le> f_mul fl mu_rel_max mu_max)"

text \<open>Every window of \<open>window_size\<close> consecutive valid indices.\<close>

definition windows_of :: "nat list \<Rightarrow> int \<Rightarrow> nat list list" where
  "windows_of valid_indices window_size =
     map (\<lambda>k. take (nat window_size) (drop k valid_indices))
       [0..<length valid_indices + 1 - nat window_size]"

text \<open>The slopes of the qualifying windows, in the order of the windows.\<close>

definition qualifying_slopes ::
  "float_ops \<Rightarrow> real list \<Rightarrow> real list \<Rightarrow> int \<Rightarrow> real \<Rightarrow> real \<Rightarrow> real \<Rightarrow> real \<Rightarrow> real list" where
  "qualifying_slopes fl t y window_size r2_min od_min frac_k_max K_est =
     List.map_filter (qualifying_slope fl t y r2_min frac_k_max K_est)
       (windows_of (valid_indices_of y od_min) window_size)"

subsection \<open>Example series\<close>

text \<open>A series of six readings that all equal the default \<^verbatim>\<open>od_min\<close>.\<close>

definition flat_t :: "real list" where "flat_t = [0, 1, 2, 3, 4, 5]"
definition flat_y :: "real list" where
  "flat_y = [1 / 100, 1 / 100, 1 / 100, 1 / 100, 1 / 100, 1 / 100]"

text \<open>A series with one downward spike, at index 3.\<close>

definition spike_t :: "real list" where "spike_t = [0, 1, 2, 3, 4]"
definition spike_y :: "real list" where "spike_y = [5 / 100, 4 / 10, 8 / 10, 3 / 10, 15 / 10]"

text \<open>
  A growth curve whose first valid window spans an invalid reading (index 1), followed by
  a flat stretch, a longer exponential stretch and a plateau. The logarithms of the
  readings are rational, so the regressions can be computed exactly.
\<close>

definition growth_t :: "real list" where
  "growth_t = [0, 1, 2, 3, 4, 5, 6, 7, 8, 9, 10]"

definition growth_y :: "real list" where
  "growth_y = [1, 0, exp 2, exp 2, exp 2, exp 3, exp 4, exp 5, exp 100, exp 100, exp 100]"

text \<open>Its valid indices for \<open>od_min = 1\<close>, and its good windows for windows of two points.\<close>

definition growth_valid :: "nat list" where
  "growth_valid = [0, 2, 3, 4, 5, 6, 7, 8, 9, 10]"

definition growth_windows :: "window list" where
  "growth_windows = [(0, 2, 1, 1), (4, 5, 1, 1), (5, 6, 1, 1), (6, 7, 1, 1)]"

text \<open>A shorter curve with the same first window and the plateau right after it.\<close>

definition gap_t :: "real list" where "gap_t = [0, 1, 2, 3, 4, 5]"
definition gap_y :: "real list" where "gap_y = [1, 0, exp 2, exp 100, exp 100, exp 100]"
definition gap_valid :: "nat list" where "gap_valid = [0, 2, 3, 4, 5]"

text \<open>
  A series whose first reading is away from the baseline, with a spike at index 5 inside
  the cleanup window and a drop at index 6 after the time limit of the cleanup.
\<close>

definition limit_t :: "real list" where "limit_t = [0, 10, 20, 30, 100, 200, 500]"
definition limit_y :: "real list" where "limit_y = [9, 1, 1, 1, 3, 2, 0]"

text \<open>
  A series whose pre-window falls into three bins of width 2: two bins of two readings
  each, the one with the higher readings filled first, and a bin of one reading.
\<close>

definition tie_t :: "real list" where "tie_t = [0, 10, 20, 30, 40]"
definition tie_y :: "real list" where "tie_y = [3, 4, 1, 2, 9]"

section \<open>Insufficient pre-window data\<close>

text \<open>
  Claim C5. Whenever fewer than \<open>min_consecutive\<close> points have a time at most \<open>t_pre\<close>,
  \<open>find_baseline_points\<close> returns normally with empty baseline indices, no baseline level
  and empty excluded indices. This holds for every series, the empty one included, and
  whatever the lengths of the two lists: nothing is indexed before this return.
\<close>

theorem find_baseline_points_insufficient:
  assumes "int (length (pre_indices_of t t_pre)) < min_consecutive"
  shows "find_baseline_points fl t y t_pre bin_width tol min_consecutive = Some (Inr ([], None, []))"
  using assms by (simp add: find_baseline_points_def)

theorem find_baseline_points_insufficient_witness:
  "int (length (pre_indices_of [] T_PRE)) < MIN_CONSECUTIVE \<and>
   find_baseline_points exact_arith [] [] T_PRE BIN_WIDTH TOL MIN_CONSECUTIVE =
     Some (Inr ([], None, []))"
proof -
  have h: "int (length (pre_indices_of [] T_PRE)) < MIN_CONSECUTIVE"
    by (simp add: pre_indices_of_def MIN_CONSECUTIVE_def)
  show ?thesis
    using h find_baseline_points_insufficient [OF h, of exact_arith "[]" BIN_WIDTH TOL] by simp
qed

section \<open>The window regression\<close>

lemma squares_error: "squares fl xs = Inl e \<Longrightarrow> e = OverflowError"
  by (induction xs arbitrary: e) (auto split: option.splits sum.splits)


lemma py_div_nonzero: "b \<noteq> 0 \<Longrightarrow> py_div fl a b = Inr (f_div fl a b)"
  by (simp add: py_div_def)

lemma linear_regression_error:
  "linear_regression fl T U = Inl e \<Longrightarrow> e = OverflowError"
  by (auto simp: linear_regression_def py_div_def Let_def
      split: if_splits sum.splits prod.splits dest: squares_error)










section \<open>Too few valid points, or no positive plateau\<close>

lemma valid_indices_below:
  "\<forall>v \<in> set y. v < od_min \<Longrightarrow> valid_indices_of y od_min = []"
  by (auto simp: valid_indices_of_def filter_empty_conv not_le dest: nth_mem)

lemma k_est_of_Nil: "k_est_of fl y [] = Inr None"
  by (simp add: k_est_of_def tail_of_def)

lemma detect_log_phase_few_valid:
  assumes "int (length (valid_indices_of y od_min)) < window_size + 1 \<or>
     (\<exists>K. median fl (map (\<lambda>i. y ! i) (tail_of (valid_indices_of y od_min))) = Inr K \<and> K \<le> 0)"
  shows "detect_log_phase fl t y window_size r2_min od_min frac_k_max mu_rel_min mu_rel_max =
     Inr ([], None, None, None)"
  using assms
  by (auto simp: detect_log_phase_def k_est_of_def Let_def split: sum.splits option.splits)

lemma detect_log_phase_below:
  assumes "\<forall>v \<in> set y. v < od_min"
  shows "detect_log_phase fl t y window_size r2_min od_min frac_k_max mu_rel_min mu_rel_max =
     Inr ([], None, None, None)"
  using valid_indices_below [OF assms]
  by (simp add: detect_log_phase_def k_est_of_Nil Let_def)

text \<open>
  Claim C4, as the code has it. If fewer than \<open>window_size + 1\<close> readings are at least
  \<open>od_min\<close>, or the median fl of the last up-to-five valid readings is not positive,
  \<open>detect_log_phase\<close> returns normally with no log indices and \<open>mu_max\<close>, \<open>mu_mean\<close> and
  \<open>K_est\<close> all unknown. A series whose readings are all strictly below \<open>od_min\<close> gets
  that result whatever the options are.
\<close>

theorem detect_log_phase_insufficient:
  "(int (length (valid_indices_of y od_min)) < window_size + 1 \<or>
      (\<exists>K. median fl (map (\<lambda>i. y ! i) (tail_of (valid_indices_of y od_min))) = Inr K \<and> K \<le> 0)
    \<longrightarrow> detect_log_phase fl t y window_size r2_min od_min frac_k_max mu_rel_min mu_rel_max =
          Inr ([], None, None, None)) \<and>
   ((\<forall>v \<in> set y. v < od_min)
    \<longrightarrow> detect_log_phase fl t y window_size r2_min od_min frac_k_max mu_rel_min mu_rel_max =
          Inr ([], None, None, None))"
  using detect_log_phase_few_valid detect_log_phase_below by blast

theorem detect_log_phase_insufficient_witness:
  "detect_log_phase exact_arith [0, 1, 2] [1, 2, 3] DEFAULT_WINDOW_SIZE DEFAULT_R2_MIN DEFAULT_OD_MIN
     DEFAULT_FRAC_K_MAX DEFAULT_MU_REL_MIN DEFAULT_MU_REL_MAX = Inr ([], None, None, None) \<and>
   detect_log_phase exact_arith [0, 1] [- 1, - 1] 1 DEFAULT_R2_MIN (- 2)
     DEFAULT_FRAC_K_MAX DEFAULT_MU_REL_MIN DEFAULT_MU_REL_MAX = Inr ([], None, None, None) \<and>
   detect_log_phase exact_arith [0, 1] [0, 0] DEFAULT_WINDOW_SIZE DEFAULT_R2_MIN DEFAULT_OD_MIN
     DEFAULT_FRAC_K_MAX DEFAULT_MU_REL_MIN DEFAULT_MU_REL_MAX = Inr ([], None, None, None)"
proof -
  have h1: "int (length (valid_indices_of [1, 2, 3] DEFAULT_OD_MIN)) < DEFAULT_WINDOW_SIZE + 1"
    by code_simp
  have "median (exact_with lg) (map (\<lambda>i. [- 1, - 1] ! i) (tail_of (valid_indices_of [- 1, - 1] (- 2)))) =
      Inr (- 1)" for lg
    by code_simp
  then have h2: "median exact_arith
        (map (\<lambda>i. [- 1, - 1] ! i) (tail_of (valid_indices_of [- 1, - 1] (- 2)))) = Inr (- 1) \<and>
      (- 1 :: real) \<le> 0"
    by (simp add: exact_arith_def)
  have h3: "\<forall>v \<in> set [0, 0]. v < DEFAULT_OD_MIN"
    by (simp add: DEFAULT_OD_MIN_def)
  show ?thesis
    using h1 h2 h3
      detect_log_phase_insufficient [of "[1, 2, 3]" DEFAULT_OD_MIN DEFAULT_WINDOW_SIZE exact_arith
        "[0, 1, 2]" DEFAULT_R2_MIN DEFAULT_FRAC_K_MAX DEFAULT_MU_REL_MIN DEFAULT_MU_REL_MAX]
      detect_log_phase_insufficient [of "[- 1, - 1]" "- 2" 1 exact_arith "[0, 1]"
        DEFAULT_R2_MIN DEFAULT_FRAC_K_MAX DEFAULT_MU_REL_MIN DEFAULT_MU_REL_MAX]
      detect_log_phase_insufficient [of "[0, 0]" DEFAULT_OD_MIN DEFAULT_WINDOW_SIZE exact_arith "[0, 1]"
        DEFAULT_R2_MIN DEFAULT_FRAC_K_MAX DEFAULT_MU_REL_MIN DEFAULT_MU_REL_MAX]
    by blast
qed

text \<open>
  The claim as written fails for a series that reaches \<open>od_min\<close> without exceeding it:
  six readings equal to the default \<open>od_min\<close> are all valid, and the plateau estimate is
  returned.
\<close>

lemma flat_valid: "valid_indices_of flat_y DEFAULT_OD_MIN = [0, 1, 2, 3, 4, 5]"
  by code_simp

lemma flat_k: "k_est_of fl flat_y [0, 1, 2, 3, 4, 5] = Inr (Some (1 / 100))"
  by (simp add: k_est_of_def tail_of_def median_def flat_y_def)

lemma flat_pos: "window_positions [0, 1, 2, 3, 4, 5] DEFAULT_WINDOW_SIZE = [0, 1]"
  by code_simp

lemma flat_slice0:
  "py_slice [0, 1, 2, 3, 4, 5::nat] (int 0) (int 0 + DEFAULT_WINDOW_SIZE) = [0, 1, 2, 3, 4]"
  by code_simp

lemma flat_slice1:
  "py_slice [0, 1, 2, 3, 4, 5::nat] (int 1) (int 1 + DEFAULT_WINDOW_SIZE) = [1, 2, 3, 4, 5]"
  by code_simp

lemma flat_fit0:
  "window_fit exact_arith flat_t flat_y DEFAULT_WINDOW_SIZE DEFAULT_R2_MIN DEFAULT_FRAC_K_MAX (1 / 100)
     [0, 1, 2, 3, 4, 5] 0 = Inr None"
  unfolding window_fit_def flat_slice0
  by (simp add: flat_t_def flat_y_def py_max_def py_div_def DEFAULT_FRAC_K_MAX_def
      exact_arith_def exact_with_def)

lemma flat_fit1:
  "window_fit exact_arith flat_t flat_y DEFAULT_WINDOW_SIZE DEFAULT_R2_MIN DEFAULT_FRAC_K_MAX (1 / 100)
     [0, 1, 2, 3, 4, 5] 1 = Inr None"
  unfolding window_fit_def flat_slice1
  by (simp add: flat_t_def flat_y_def py_max_def py_div_def DEFAULT_FRAC_K_MAX_def
      exact_arith_def exact_with_def)

lemma flat_result:
  "detect_log_phase exact_arith flat_t flat_y DEFAULT_WINDOW_SIZE DEFAULT_R2_MIN DEFAULT_OD_MIN
     DEFAULT_FRAC_K_MAX DEFAULT_MU_REL_MIN DEFAULT_MU_REL_MAX = Inr ([], None, None, Some (1 / 100))"
  unfolding detect_log_phase_def flat_valid Let_def flat_k flat_pos scan_windows.simps
    flat_fit0 flat_fit1 sum.case option.case log_phase_from_windows_def
  by (simp add: flat_t_def DEFAULT_WINDOW_SIZE_def)

theorem detect_log_phase_at_od_min_counterexample:
  "list_all (\<lambda>v. v \<le> DEFAULT_OD_MIN) flat_y \<and>
   detect_log_phase exact_arith flat_t flat_y DEFAULT_WINDOW_SIZE DEFAULT_R2_MIN DEFAULT_OD_MIN
     DEFAULT_FRAC_K_MAX DEFAULT_MU_REL_MIN DEFAULT_MU_REL_MAX = Inr ([], None, None, Some (1 / 100))"
  using flat_result by (simp add: flat_y_def DEFAULT_OD_MIN_def)

section \<open>The monotonic cleanup\<close>

lemma inner_inv_step:
  assumes "inner_inv vals eps j dp prev I st" "I < j" "j < length dp" "j < length prev"
  shows "inner_inv vals eps j dp prev (Suc I) (dp_inner_step vals eps j I st)"
proof -
  obtain dp' prev' where st: "st = (dp', prev')" by (cases st)
  from assms(1) have
    l: "length dp' = length dp" "length prev' = length prev" and
    o: "\<forall>k. k \<noteq> j \<longrightarrow> dp' ! k = dp ! k \<and> prev' ! k = prev ! k" and
    c: "(prev' ! j = - 1 \<and> dp' ! j = 1) \<or>
         (\<exists>i<I. prev' ! j = int i \<and> tol_le vals eps i j \<and> dp' ! j = dp ! i + 1)" and
    u: "\<forall>i<I. tol_le vals eps i j \<longrightarrow> dp ! i + 1 \<le> dp' ! j"
    by (auto simp: inner_inv_def st)
  have dI: "dp' ! I = dp ! I" using o assms(2) by auto
  show ?thesis
  proof (cases "vals ! I \<le> vals ! j + eps \<and> dp' ! I + 1 > dp' ! j")
    case True
    then have step: "dp_inner_step vals eps j I st = (dp'[j := dp' ! I + 1], prev'[j := int I])"
      by (simp add: dp_inner_step_def st)
    have "\<forall>i<Suc I. tol_le vals eps i j \<longrightarrow> dp ! i + 1 \<le> dp ! I + 1"
    proof (intro allI impI)
      fix i assume "i < Suc I" "tol_le vals eps i j"
      then show "dp ! i + 1 \<le> dp ! I + 1"
        using u True dI by (cases "i = I") (auto simp: less_Suc_eq)
    qed
    then show ?thesis
      unfolding step inner_inv_def using l o True dI assms(3,4)
      by (auto simp: tol_le_def)
  next
    case False
    then have step: "dp_inner_step vals eps j I st = (dp', prev')"
      by (auto simp: dp_inner_step_def st)
    have "\<forall>i<Suc I. tol_le vals eps i j \<longrightarrow> dp ! i + 1 \<le> dp' ! j"
    proof (intro allI impI)
      fix i assume "i < Suc I" "tol_le vals eps i j"
      then show "dp ! i + 1 \<le> dp' ! j"
        using u False dI by (cases "i = I") (auto simp: less_Suc_eq tol_le_def)
    qed
    moreover have "(prev' ! j = - 1 \<and> dp' ! j = 1) \<or>
         (\<exists>i<Suc I. prev' ! j = int i \<and> tol_le vals eps i j \<and> dp' ! j = dp ! i + 1)"
      using c less_Suc_eq by auto
    ultimately show ?thesis
      unfolding step inner_inv_def using l o by simp
  qed
qed

lemma inner_inv_fold:
  assumes "I \<le> j" "j < length dp" "j < length prev" "prev ! j = - 1" "dp ! j = 1"
  shows "inner_inv vals eps j dp prev I (fold (dp_inner_step vals eps j) [0..<I] (dp, prev))"
  using assms(1)
proof (induction I)
  case 0
  then show ?case using assms(4,5) by (simp add: inner_inv_def)
next
  case (Suc I)
  then have "inner_inv vals eps j dp prev I (fold (dp_inner_step vals eps j) [0..<I] (dp, prev))"
    by simp
  from inner_inv_step [OF this _ assms(2,3)] Suc.prems show ?case by simp
qed

lemma dp_inv_step:
  assumes inv: "dp_inv vals eps J st" and J: "J < length vals"
  shows "dp_inv vals eps (Suc J) (dp_outer_step vals eps J st)"
proof -
  obtain dp prev best where st: "st = (dp, prev, best)" by (cases st)
  let ?m = "length vals"
  from inv have
    l: "length dp = ?m" "length prev = ?m" and
    c: "\<forall>j<?m. (prev ! j = - 1 \<and> dp ! j = 1) \<or>
           (\<exists>i<j. prev ! j = int i \<and> tol_le vals eps i j \<and> dp ! j = dp ! i + 1)" and
    f: "\<forall>j. J \<le> j \<and> j < ?m \<longrightarrow> prev ! j = - 1 \<and> dp ! j = 1" and
    u: "\<forall>j<J. \<forall>i<j. tol_le vals eps i j \<longrightarrow> dp ! i + 1 \<le> dp ! j" and
    b: "best < J \<or> (J = 0 \<and> best = 0)" and
    bm: "\<forall>j<J. dp ! j \<le> dp ! best"
    by (auto simp: dp_inv_def st)
  obtain dp' prev' where in_eq: "fold (dp_inner_step vals eps J) [0..<J] (dp, prev) = (dp', prev')"
    by (cases "fold (dp_inner_step vals eps J) [0..<J] (dp, prev)")
  have "inner_inv vals eps J dp prev J (dp', prev')"
    using inner_inv_fold [of J J dp prev vals eps] J l f in_eq by simp
  then have
    l': "length dp' = ?m" "length prev' = ?m" and
    o: "\<forall>k. k \<noteq> J \<longrightarrow> dp' ! k = dp ! k \<and> prev' ! k = prev ! k" and
    cJ: "(prev' ! J = - 1 \<and> dp' ! J = 1) \<or>
         (\<exists>i<J. prev' ! J = int i \<and> tol_le vals eps i J \<and> dp' ! J = dp ! i + 1)" and
    uJ: "\<forall>i<J. tol_le vals eps i J \<longrightarrow> dp ! i + 1 \<le> dp' ! J"
    by (auto simp: inner_inv_def l)
  let ?best = "if dp' ! J > dp' ! best then J else best"
  have step: "dp_outer_step vals eps J st = (dp', prev', ?best)"
    by (simp add: dp_outer_step_def st in_eq)
  have c': "\<forall>j<?m. (prev' ! j = - 1 \<and> dp' ! j = 1) \<or>
           (\<exists>i<j. prev' ! j = int i \<and> tol_le vals eps i j \<and> dp' ! j = dp' ! i + 1)"
  proof (intro allI impI)
    fix j assume jm: "j < ?m"
    consider "j < J" | "j = J" | "J < j" by arith
    then show "(prev' ! j = - 1 \<and> dp' ! j = 1) \<or>
           (\<exists>i<j. prev' ! j = int i \<and> tol_le vals eps i j \<and> dp' ! j = dp' ! i + 1)"
    proof cases
      case 1
      then have e: "dp' ! j = dp ! j" "prev' ! j = prev ! j" using o by auto
      from c jm have "(prev ! j = - 1 \<and> dp ! j = 1) \<or>
           (\<exists>i<j. prev ! j = int i \<and> tol_le vals eps i j \<and> dp ! j = dp ! i + 1)" by blast
      then show ?thesis
      proof
        assume "prev ! j = - 1 \<and> dp ! j = 1" then show ?thesis using e by simp
      next
        assume "\<exists>i<j. prev ! j = int i \<and> tol_le vals eps i j \<and> dp ! j = dp ! i + 1"
        then obtain i where i: "i < j" "prev ! j = int i" "tol_le vals eps i j" "dp ! j = dp ! i + 1"
          by blast
        then have "dp' ! i = dp ! i" using o 1 by auto
        with i e show ?thesis by auto
      qed
    next
      case 2
      from cJ show ?thesis
      proof
        assume "prev' ! J = - 1 \<and> dp' ! J = 1" then show ?thesis using 2 by simp
      next
        assume "\<exists>i<J. prev' ! J = int i \<and> tol_le vals eps i J \<and> dp' ! J = dp ! i + 1"
        then obtain i where i: "i < J" "prev' ! J = int i" "tol_le vals eps i J" "dp' ! J = dp ! i + 1"
          by blast
        then have "dp' ! i = dp ! i" using o by auto
        with i 2 show ?thesis by auto
      qed
    next
      case 3
      then have "dp' ! j = dp ! j" "prev' ! j = prev ! j" using o by auto
      moreover have "prev ! j = - 1 \<and> dp ! j = 1" using f 3 jm by auto
      ultimately show ?thesis by simp
    qed
  qed
  have f': "\<forall>j. Suc J \<le> j \<and> j < ?m \<longrightarrow> prev' ! j = - 1 \<and> dp' ! j = 1"
    using f o by auto
  have u': "\<forall>j<Suc J. \<forall>i<j. tol_le vals eps i j \<longrightarrow> dp' ! i + 1 \<le> dp' ! j"
  proof (intro allI impI)
    fix j i assume a: "j < Suc J" "i < j" "tol_le vals eps i j"
    show "dp' ! i + 1 \<le> dp' ! j"
    proof (cases "j = J")
      case True
      then have "dp' ! i = dp ! i" using o a by auto
      then show ?thesis using uJ a True by auto
    next
      case False
      then have "j < J" using a by simp
      then have "dp' ! i = dp ! i" "dp' ! j = dp ! j" using o a by auto
      then show ?thesis using u a \<open>j < J\<close> by auto
    qed
  qed
  have b': "?best < Suc J \<or> (Suc J = 0 \<and> ?best = 0)"
    using b by auto
  have bm': "\<forall>j<Suc J. dp' ! j \<le> dp' ! ?best"
  proof (intro allI impI)
    fix j assume a: "j < Suc J"
    show "dp' ! j \<le> dp' ! ?best"
    proof (cases "j = J")
      case True
      then show ?thesis by auto
    next
      case False
      then have jJ: "j < J" using a by simp
      then have "best < J" using b by auto
      then have "dp' ! best = dp ! best" "dp' ! j = dp ! j" using o jJ by auto
      then show ?thesis using bm jJ by auto
    qed
  qed
  show ?thesis
    unfolding step dp_inv_def using l' c' f' u' b' bm' by simp
qed

lemma dp_inv_fold:
  assumes "J \<le> length vals"
  shows "dp_inv vals eps J
     (fold (dp_outer_step vals eps) [0..<J]
        (replicate (length vals) 1, replicate (length vals) (- 1), 0))"
  using assms
proof (induction J)
  case 0
  then show ?case by (simp add: dp_inv_def)
next
  case (Suc J)
  then show ?case using dp_inv_step [of vals eps J] by simp
qed

lemma dp_table_inv: "dp_inv vals eps (length vals) (dp_table vals eps)"
  using dp_inv_fold [of "length vals" vals eps] by (simp add: dp_table_def Let_def)

lemma chain_snoc:
  "chain vals eps (ps @ [j]) =
     (chain vals eps ps \<and> j < length vals \<and> (\<forall>p \<in> set ps. p < j) \<and>
      (ps \<noteq> [] \<longrightarrow> tol_le vals eps (last ps) j))"
  by (auto simp: chain_def sorted_wrt_append successively_append_iff)

lemma chain_bound:
  assumes inv: "dp_inv vals eps (length vals) (dp, prev, best)"
  shows "chain vals eps ps \<Longrightarrow> ps \<noteq> [] \<Longrightarrow> length ps \<le> dp ! last ps"
proof (induction ps rule: rev_induct)
  case Nil
  then show ?case by simp
next
  case (snoc j qs)
  from inv have
    c: "\<forall>j<length vals. (prev ! j = - 1 \<and> dp ! j = 1) \<or>
           (\<exists>i<j. prev ! j = int i \<and> tol_le vals eps i j \<and> dp ! j = dp ! i + 1)" and
    u: "\<forall>j<length vals. \<forall>i<j. tol_le vals eps i j \<longrightarrow> dp ! i + 1 \<le> dp ! j"
    by (auto simp: dp_inv_def)
  from snoc.prems have ch: "chain vals eps qs" and j: "j < length vals"
    and lt: "\<forall>p \<in> set qs. p < j" and r: "qs \<noteq> [] \<longrightarrow> tol_le vals eps (last qs) j"
    by (auto simp: chain_snoc)
  show ?case
  proof (cases "qs = []")
    case True
    from c j have "1 \<le> dp ! j" by fastforce
    with True show ?thesis by simp
  next
    case False
    then have "length qs \<le> dp ! last qs" using snoc.IH ch by simp
    moreover have "last qs < j" using lt False by simp
    then have "dp ! last qs + 1 \<le> dp ! j" using u j r False by blast
    ultimately show ?thesis by simp
  qed
qed

lemma backtrack_chain:
  assumes inv: "dp_inv vals eps (length vals) (dp, prev, best)"
  shows "k < length vals \<Longrightarrow>
     \<exists>c. backtrack prev (int k) keep = Some (c @ keep) \<and> chain vals eps c \<and> c \<noteq> [] \<and>
         last c = k \<and> length c = dp ! k"
proof (induction k arbitrary: keep rule: less_induct)
  case (less k)
  from inv have
    c: "\<forall>j<length vals. (prev ! j = - 1 \<and> dp ! j = 1) \<or>
           (\<exists>i<j. prev ! j = int i \<and> tol_le vals eps i j \<and> dp ! j = dp ! i + 1)"
    by (auto simp: dp_inv_def)
  have unf: "backtrack prev (int k) keep = backtrack prev (prev ! k) (k # keep)"
    by (subst backtrack.simps) simp
  from c less.prems have "(prev ! k = - 1 \<and> dp ! k = 1) \<or>
           (\<exists>i<k. prev ! k = int i \<and> tol_le vals eps i k \<and> dp ! k = dp ! i + 1)" by blast
  then show ?case
  proof
    assume a: "prev ! k = - 1 \<and> dp ! k = 1"
    then have "backtrack prev (int k) keep = Some ([k] @ keep)"
      unfolding unf by (subst backtrack.simps) simp
    moreover have "chain vals eps [k]" using less.prems by (simp add: chain_def)
    ultimately show ?thesis using a by force
  next
    assume "\<exists>i<k. prev ! k = int i \<and> tol_le vals eps i k \<and> dp ! k = dp ! i + 1"
    then obtain i where i: "i < k" "prev ! k = int i" "tol_le vals eps i k" "dp ! k = dp ! i + 1"
      by blast
    then have "i < length vals" using less.prems by simp
    from less.IH [OF i(1) this, of "k # keep"] obtain c' where
      c': "backtrack prev (int i) (k # keep) = Some (c' @ k # keep)" "chain vals eps c'"
        "c' \<noteq> []" "last c' = i" "length c' = dp ! i"
      by blast
    have le: "\<forall>p \<in> set c'. p \<le> i"
    proof
      fix p assume p: "p \<in> set c'"
      from c'(3) obtain b l where bl: "c' = b @ [l]" by (metis rev_exhaust)
      with c'(4) have "l = i" by simp
      with c'(2) bl p show "p \<le> i" by (auto simp: chain_snoc)
    qed
    have "chain vals eps (c' @ [k])"
      using c'(2,3,4) i less.prems le by (auto simp: chain_snoc)
    moreover have "backtrack prev (int k) keep = Some ((c' @ [k]) @ keep)"
      unfolding unf i(2) using c'(1) by simp
    ultimately show ?thesis using c'(5) i(4) by force
  qed
qed

lemma subseq_positions:
  "subseq s W \<Longrightarrow> \<exists>ps. sorted_wrt (<) ps \<and> (\<forall>p \<in> set ps. p < length W) \<and> s = map (nth W) ps"
proof (induction rule: list_emb.induct)
  case (list_emb_Nil ys)
  show ?case by (rule exI [of _ "[]"]) simp
next
  case (list_emb_Cons xs ys y)
  then obtain ps where ps: "sorted_wrt (<) ps" "\<forall>p \<in> set ps. p < length ys" "xs = map (nth ys) ps"
    by blast
  show ?case
    by (rule exI [of _ "map Suc ps"]) (use ps in \<open>auto simp: sorted_wrt_map\<close>)
next
  case (list_emb_Cons2 x y xs ys)
  then obtain ps where ps: "sorted_wrt (<) ps" "\<forall>p \<in> set ps. p < length ys" "xs = map (nth ys) ps"
    by blast
  show ?case
    by (rule exI [of _ "0 # map Suc ps"]) (use ps list_emb_Cons2 in \<open>auto simp: sorted_wrt_map\<close>)
qed

lemma positions_subseq:
  "sorted_wrt (<) c \<Longrightarrow> \<forall>p \<in> set c. p < length W \<Longrightarrow> subseq (map (nth W) c) W"
proof (induction c arbitrary: W rule: rev_induct)
  case Nil
  then show ?case by simp
next
  case (snoc p c)
  then have pW: "p < length W" and lt: "\<forall>q \<in> set c. q < p" and sc: "sorted_wrt (<) c"
    by (auto simp: sorted_wrt_append)
  have e: "map (nth W) c = map (nth (take p W)) c"
    using lt by simp
  have "subseq (map (nth (take p W)) c) (take p W)"
    using snoc.IH [OF sc, of "take p W"] lt pW by simp
  then have "subseq (map (nth W) c) (take p W)"
    unfolding e .
  moreover have "subseq [W ! p] (W ! p # drop (Suc p) W)"
    by simp
  ultimately have "subseq (map (nth W) c @ [W ! p]) (take p W @ W ! p # drop (Suc p) W)"
    by (rule list_emb_append_mono)
  then show ?case
    using pW by (simp add: id_take_nth_drop [symmetric])
qed

lemma filter_subseq_distinct:
  "subseq r W \<Longrightarrow> distinct W \<Longrightarrow> filter (\<lambda>x. x \<in> set r) W = r"
proof (induction rule: list_emb.induct)
  case (list_emb_Nil ys)
  then show ?case by simp
next
  case (list_emb_Cons xs ys y)
  then have "set xs \<subseteq> set ys" using list_emb_set [of "(=)" xs ys] by auto
  with list_emb_Cons show ?case by auto
next
  case (list_emb_Cons2 x y xs ys)
  then have "x \<notin> set ys" by simp
  then have "filter (\<lambda>z. z = x \<or> z \<in> set xs) ys = filter (\<lambda>z. z \<in> set xs) ys"
    by (intro filter_cong) auto
  with list_emb_Cons2 show ?case by simp
qed

lemma distinct_mono_indices: "distinct (mono_indices_of t y t_max start_idx excluded)"
  by (simp add: mono_indices_of_def)

lemma successively_short: "length xs \<le> 1 \<Longrightarrow> successively P xs"
  by (cases xs) auto

lemma mono_cleanup_spec:
  assumes noerr: "\<not> (start_idx < length y \<and> length t < length y)"
  shows "\<exists>r. mono_cleanup t y eps t_max start_idx excluded =
            Some (Inr (excluded @
              [i \<leftarrow> mono_indices_of t y t_max start_idx excluded. i \<notin> set r])) \<and>
          subseq r (mono_indices_of t y t_max start_idx excluded) \<and>
          nondecreasing_within eps (map (\<lambda>i. y ! i) r) \<and>
          (\<forall>s. subseq s (mono_indices_of t y t_max start_idx excluded) \<and>
               nondecreasing_within eps (map (\<lambda>i. y ! i) s) \<longrightarrow> length s \<le> length r)"
proof -
  let ?W = "mono_indices_of t y t_max start_idx excluded"
  let ?vals = "map (\<lambda>i. y ! i) ?W"
  show ?thesis
  proof (cases "length ?W \<le> 1")
    case True
    then have "mono_cleanup t y eps t_max start_idx excluded = Some (Inr excluded)"
      using noerr by (simp add: mono_cleanup_def Let_def)
    moreover have "nondecreasing_within eps (map (\<lambda>i. y ! i) ?W)"
      unfolding nondecreasing_within_def using True by (intro successively_short) simp
    moreover have "\<forall>s. subseq s ?W \<longrightarrow> length s \<le> length ?W"
      by (simp add: list_emb_length)
    ultimately show ?thesis
      by (intro exI [of _ ?W]) auto
  next
    case False
    obtain dp prev best where tab: "dp_table ?vals eps = (dp, prev, best)"
      by (cases "dp_table ?vals eps")
    have inv: "dp_inv ?vals eps (length ?vals) (dp, prev, best)"
      using dp_table_inv [of ?vals eps] tab by simp
    have m: "length ?vals = length ?W" by simp
    from inv False have best: "best < length ?vals"
      and bm: "\<forall>j<length ?vals. dp ! j \<le> dp ! best"
      by (auto simp: dp_inv_def)
    from backtrack_chain [OF inv best, of "[]"] obtain c where
      c: "backtrack prev (int best) [] = Some c" "chain ?vals eps c" "c \<noteq> []"
        "last c = best" "length c = dp ! best"
      by auto
    let ?r = "map (nth ?W) c"
    have cs: "sorted_wrt (<) c" and cb: "\<forall>p \<in> set c. p < length ?W"
      and csucc: "successively (tol_le ?vals eps) c"
      using c(2) by (auto simp: chain_def)
    have res: "mono_cleanup t y eps t_max start_idx excluded =
        Some (Inr (excluded @ [i \<leftarrow> ?W. i \<notin> set ?r]))"
      using noerr False tab c(1) by (simp add: mono_cleanup_def Let_def)
    have sub: "subseq ?r ?W"
      using positions_subseq [OF cs cb] .
    have "successively (\<lambda>p q. ?vals ! p \<le> ?vals ! q + eps) c"
      using csucc by (simp add: tol_le_def [abs_def])
    then have "successively (\<lambda>p q. y ! (?W ! p) \<le> y ! (?W ! q) + eps) c"
      by (rule successively_mono) (use cb in auto)
    then have nd: "nondecreasing_within eps (map (\<lambda>i. y ! i) ?r)"
      by (simp add: nondecreasing_within_def successively_map)
    have opt: "length s \<le> length ?r"
      if s: "subseq s ?W" "nondecreasing_within eps (map (\<lambda>i. y ! i) s)" for s
    proof (cases "s = []")
      case True
      then show ?thesis by simp
    next
      case sne: False
      from subseq_positions [OF s(1)] obtain ps where
        ps: "sorted_wrt (<) ps" "\<forall>p \<in> set ps. p < length ?W" "s = map (nth ?W) ps"
        by blast
      have "successively (\<lambda>p q. y ! (?W ! p) \<le> y ! (?W ! q) + eps) ps"
        using s(2) by (simp add: nondecreasing_within_def ps(3) successively_map)
      then have "successively (\<lambda>p q. ?vals ! p \<le> ?vals ! q + eps) ps"
        by (rule successively_mono) (use ps(2) in auto)
      then have "chain ?vals eps ps"
        using ps by (simp add: chain_def tol_le_def [abs_def])
      moreover have pne: "ps \<noteq> []" using sne ps(3) by auto
      ultimately have "length ps \<le> dp ! last ps"
        using chain_bound [OF inv] by blast
      moreover have "last ps < length ?vals" using ps(2) pne by simp
      then have "dp ! last ps \<le> dp ! best" using bm by blast
      ultimately show ?thesis using c(5) ps(3) by simp
    qed
    show ?thesis
      using res sub nd opt by blast
  qed
qed

lemma mono_indices_after:
  assumes "subseq r (mono_indices_of t y t_max start_idx excluded)"
  shows "mono_indices_of t y t_max start_idx
           (excluded @ [i \<leftarrow> mono_indices_of t y t_max start_idx excluded. i \<notin> set r]) = r"
proof -
  let ?W = "mono_indices_of t y t_max start_idx excluded"
  have "mono_indices_of t y t_max start_idx (excluded @ [i \<leftarrow> ?W. i \<notin> set r]) =
      filter (\<lambda>i. i \<notin> set [i \<leftarrow> ?W. i \<notin> set r]) ?W"
    by (simp add: mono_indices_of_def conj_commute conj_left_commute)
  also have "\<dots> = filter (\<lambda>i. i \<in> set r) ?W"
    by (intro filter_cong) auto
  also have "\<dots> = r"
    using filter_subseq_distinct [OF assms distinct_mono_indices] .
  finally show ?thesis .
qed

lemma mono_cleanup_error:
  "start_idx < length y \<and> length t < length y \<Longrightarrow>
   mono_cleanup t y eps t_max start_idx excluded = Some (Inl IndexError)"
  by (simp add: mono_cleanup_def)

lemma mono_cleanup_Inr_noerr:
  "mono_cleanup t y eps t_max start_idx excluded = Some (Inr e) \<Longrightarrow>
   \<not> (start_idx < length y \<and> length t < length y)"
  using mono_cleanup_error [of start_idx y t eps t_max excluded] by auto

lemma mono_indices_set_cong:
  "set e2 = set e1 \<Longrightarrow>
   mono_indices_of t y t_max start_idx e2 = mono_indices_of t y t_max start_idx e1"
  by (simp add: mono_indices_of_def)

lemma mono_cleanup_idem:
  assumes first: "mono_cleanup t y eps t_max start_idx excluded = Some (Inr excluded')"
    and same: "set e2 = set excluded'"
  shows "mono_cleanup t y eps t_max start_idx e2 = Some (Inr e2) \<and>
     nondecreasing_within eps (map (\<lambda>i. y ! i) (mono_indices_of t y t_max start_idx e2))"
proof -
  let ?W = "mono_indices_of t y t_max start_idx excluded"
  note noerr = mono_cleanup_Inr_noerr [OF first]
  from mono_cleanup_spec [OF noerr, of eps t_max excluded] first obtain r where
    r: "excluded' = excluded @ [i \<leftarrow> ?W. i \<notin> set r]" "subseq r ?W"
      "nondecreasing_within eps (map (\<lambda>i. y ! i) r)"
    by auto
  have "mono_indices_of t y t_max start_idx excluded' = r"
    unfolding r(1) using mono_indices_after [OF r(2)] .
  then have W2: "mono_indices_of t y t_max start_idx e2 = r"
    using mono_indices_set_cong [OF same] by simp
  from mono_cleanup_spec [OF noerr, of eps t_max e2] obtain r2 where
    r2: "mono_cleanup t y eps t_max start_idx e2 =
           Some (Inr (e2 @ [i \<leftarrow> r. i \<notin> set r2]))" "subseq r2 r"
      "\<forall>s. subseq s r \<and> nondecreasing_within eps (map (\<lambda>i. y ! i) s) \<longrightarrow> length s \<le> length r2"
    unfolding W2 by blast
  have "length r \<le> length r2" using r2(3) r(3) by auto
  then have "r2 = r"
    using r2(2) list_emb_length [of "(=)" r2 r] subseq_same_length [of r2 r] by simp
  then show ?thesis using r2(1) r(3) W2 by simp
qed

section \<open>The histogram and the choice of the baseline run\<close>

lemma first_keys_snoc:
  "first_keys (xs @ [x]) = (if x \<in> set xs then first_keys xs else first_keys xs @ [x])"
  by (simp add: first_keys_def)

lemma set_first_keys [simp]: "set (first_keys xs) = set xs"
  by (simp add: first_keys_def)

lemma distinct_first_keys [simp]: "distinct (first_keys xs)"
  by (simp add: first_keys_def)

lemma first_keys_split:
  "first_keys xs = as @ b # bs \<Longrightarrow> \<exists>us vs. xs = us @ b # vs \<and> set us \<subseteq> set as"
proof (induction xs arbitrary: bs rule: rev_induct)
  case Nil
  then show ?case by (simp add: first_keys_def)
next
  case (snoc x xs)
  show ?case
  proof (cases "x \<in> set xs")
    case True
    with snoc.prems have "first_keys xs = as @ b # bs" by (simp add: first_keys_snoc)
    from snoc.IH [OF this] obtain us vs where "xs = us @ b # vs" "set us \<subseteq> set as" by blast
    then have "xs @ [x] = us @ b # (vs @ [x])" by simp
    with \<open>set us \<subseteq> set as\<close> show ?thesis by blast
  next
    case False
    with snoc.prems have e: "first_keys xs @ [x] = as @ b # bs" by (simp add: first_keys_snoc)
    show ?thesis
    proof (cases bs rule: rev_cases)
      case Nil
      with e have "first_keys xs = as" "x = b" by auto
      then have "xs @ [x] = xs @ b # []" "set xs \<subseteq> set as" by auto
      then show ?thesis by blast
    next
      case (snoc bs' z)
      with e have "first_keys xs = as @ b # bs'" by auto
      from snoc.IH [OF this] obtain us vs where "xs = us @ b # vs" "set us \<subseteq> set as" by blast
      then have "xs @ [x] = us @ b # (vs @ [x])" by simp
      with \<open>set us \<subseteq> set as\<close> show ?thesis by blast
    qed
  qed
qed

lemma bins_append_closed:
  assumes "distinct (map fst bins)"
  shows "bins_append bins b idx =
     (if b \<in> fst ` set bins
      then map (\<lambda>(k, v). if k = b then (k, v @ [idx]) else (k, v)) bins
      else bins @ [(b, [idx])])"
  using assms
proof (induction bins)
  case Nil
  then show ?case by simp
next
  case (Cons kv bins)
  obtain k v where kv: "kv = (k, v)" by (cases kv)
  have upd: "map (\<lambda>(k', v'). if k' = b then (k', v' @ [idx]) else (k', v')) bins = bins"
    if "b \<notin> fst ` set bins"
    using that by (induction bins) auto
  show ?case
  proof (cases "k = b")
    case True
    then have "b \<notin> fst ` set bins" using Cons.prems kv by auto
    then show ?thesis using True kv upd by simp
  next
    case False
    then show ?thesis using Cons kv by auto
  qed
qed

lemma fill_bins_closed:
  "fold (\<lambda>idx bins_dict. bins_append bins_dict (f idx) idx) ps [] =
     map (\<lambda>k. (k, [i \<leftarrow> ps. f i = k])) (first_keys (map f ps))"
proof (induction ps rule: rev_induct)
  case Nil
  then show ?case by (simp add: first_keys_def)
next
  case (snoc x ps)
  let ?B = "map (\<lambda>k. (k, [i \<leftarrow> ps. f i = k])) (first_keys (map f ps))"
  have d: "distinct (map fst ?B)" by (simp add: comp_def)
  have keys: "fst ` set ?B = f ` set ps" by (force simp: image_iff)
  have "fold (\<lambda>idx bins_dict. bins_append bins_dict (f idx) idx) (ps @ [x]) [] =
      bins_append ?B (f x) x"
    using snoc.IH by simp
  also have "\<dots> = map (\<lambda>k. (k, [i \<leftarrow> ps @ [x]. f i = k])) (first_keys (map f (ps @ [x])))"
  proof (cases "f x \<in> f ` set ps")
    case True
    then show ?thesis
      unfolding bins_append_closed [OF d] keys
      by (auto simp: first_keys_snoc comp_def)
  next
    case False
    then have "\<forall>i \<in> set ps. f i \<noteq> f x" by (metis imageI)
    then have "[i \<leftarrow> ps. f i = f x] = []" by (simp add: filter_empty_conv)
    with False show ?thesis
      unfolding bins_append_closed [OF d] keys
      by (auto simp: first_keys_snoc comp_def)
  qed
  finally show ?case .
qed

lemma max_by_from_split:
  "\<exists>as bs. best # xs = as @ max_by_from key best xs # bs \<and>
      (\<forall>a \<in> set as. key a < key (max_by_from key best xs)) \<and>
      (\<forall>b \<in> set bs. key b \<le> key (max_by_from key best xs))"
proof (induction xs arbitrary: best)
  case Nil
  show ?case by (rule exI [of _ "[]"], rule exI [of _ "[]"]) simp
next
  case (Cons x xs)
  define best' where "best' = (if key best < key x then x else best)"
  define r where "r = max_by_from key best' xs"
  from Cons [of best'] obtain as bs where
    sp: "best' # xs = as @ r # bs" and lo: "\<forall>a \<in> set as. key a < key r"
    and hi: "\<forall>b \<in> set bs. key b \<le> key r"
    unfolding r_def by blast
  have r: "max_by_from key best (x # xs) = r" by (simp add: r_def best'_def)
  have ge: "key best' \<le> key r"
    using sp lo by (cases as) (auto simp: less_imp_le)
  have "\<exists>as bs. best # x # xs = as @ r # bs \<and> (\<forall>a \<in> set as. key a < key r) \<and>
      (\<forall>b \<in> set bs. key b \<le> key r)"
  proof (cases "key best < key x")
    case True
    then have b': "best' = x" by (simp add: best'_def)
    have "best # x # xs = (best # as) @ r # bs" using sp b' by simp
    moreover have "\<forall>a \<in> set (best # as). key a < key r" using lo ge True b' by auto
    ultimately show ?thesis using hi by blast
  next
    case False
    then have b': "best' = best" by (simp add: best'_def)
    show ?thesis
    proof (cases as)
      case Nil
      then have rb: "r = best" and bx: "bs = xs" using sp b' by auto
      have "best # x # xs = [] @ r # (x # bs)" using rb bx by simp
      moreover have "\<forall>b \<in> set (x # bs). key b \<le> key r" using hi False rb by auto
      moreover have "\<forall>a \<in> set []. key a < key r" by simp
      ultimately show ?thesis by blast
    next
      case (Cons a as')
      then have ab: "a = best" and xs: "xs = as' @ r # bs" using sp b' by auto
      have "best # x # xs = (best # x # as') @ r # bs" using xs by simp
      moreover have "\<forall>a \<in> set (best # x # as'). key a < key r"
        using lo Cons ab False by auto
      ultimately show ?thesis using hi by blast
    qed
  qed
  then show ?case unfolding r .
qed

lemma py_max_by_split:
  assumes "xs \<noteq> []"
  shows "\<exists>r as bs. py_max_by key xs = Inr r \<and> xs = as @ r # bs \<and>
      (\<forall>a \<in> set as. key a < key r) \<and> (\<forall>b \<in> set bs. key b \<le> key r)"
proof -
  from assms obtain x r where xs: "xs = x # r" by (cases xs) auto
  from max_by_from_split [of x r key] show ?thesis
    unfolding xs by (auto simp: py_max_by_def)
qed

lemma py_min_Min: "xs \<noteq> [] \<Longrightarrow> py_min xs = Inr (Min (set xs))"
proof (cases xs)
  case Nil
  assume "xs \<noteq> []"
  with Nil show ?thesis by simp
next
  case (Cons a list)
  have "fold min list a = Min (set (a # list))"
    by (rule Min.set_eq_fold [symmetric])
  then show ?thesis unfolding Cons py_min_def by simp
qed

lemma median_nonempty:
  assumes "xs \<noteq> []"
  shows "\<exists>m. median fl xs = Inr m"
proof -
  have n: "length (sort xs) \<noteq> 0" using assms by simp
  show ?thesis
  proof (cases "length (sort xs) mod 2 = 1")
    case True
    with n have "median fl xs = Inr (sort xs ! (length (sort xs) div 2))"
      unfolding median_def Let_def by simp
    then show ?thesis by blast
  next
    case False
    with n have "median fl xs = Inr (f_div fl (f_add fl (sort xs ! (length (sort xs) div 2 - 1))
        (sort xs ! (length (sort xs) div 2))) 2)"
      unfolding median_def Let_def by simp
    then show ?thesis by blast
  qed
qed

lemma fill_bins_loop_ok:
  "\<forall>i \<in> set ps. bin_of i = Inr (f i) \<Longrightarrow>
   fill_bins_loop bin_of ps acc =
     Inr (fold (\<lambda>idx bins_dict. bins_append bins_dict (f idx) idx) ps acc)"
  by (induction ps arbitrary: acc) auto

lemma fill_bins_loop_error:
  "fill_bins_loop bin_of ps acc = Inl e \<Longrightarrow> \<exists>i \<in> set ps. bin_of i = Inl e"
  by (induction ps arbitrary: acc) (auto split: sum.splits)

lemma fill_bins_loop_Inr:
  "fill_bins_loop bin_of ps acc = Inr bins \<Longrightarrow> \<forall>i \<in> set ps. \<exists>k. bin_of i = Inr k"
  by (induction ps arbitrary: acc) (auto split: sum.splits)

lemma bin_index_of_key:
  assumes "bin_width \<noteq> 0" "\<bar>bin_quotient fl y bin_width pre i\<bar> < FLOAT_INF"
  shows "bin_index_of fl y (pre_min y pre) bin_width i = Inr (bin_key fl y bin_width pre i)"
  using assms
  by (simp add: bin_index_of_def py_div_def py_int_def bin_key_def bin_quotient_def)

lemma bin_index_of_Inr:
  assumes "bin_index_of fl y (pre_min y pre) bin_width i = Inr k"
  shows "bin_width \<noteq> 0 \<and> \<bar>bin_quotient fl y bin_width pre i\<bar> < FLOAT_INF"
  using assms
  by (auto simp: bin_index_of_def py_div_def py_int_def bin_quotient_def split: if_splits)

lemma bin_index_of_error:
  assumes "bin_index_of fl y y_min bin_width i = Inl e"
  shows "(bin_width = 0 \<and> e = ZeroDivisionError) \<or> (bin_width \<noteq> 0 \<and> e = OverflowError)"
  using assms
  by (auto simp: bin_index_of_def py_div_def py_int_def split: if_splits)

lemma histogram_level_spec:
  assumes ne: "pre \<noteq> []" and rng: "\<forall>i \<in> set pre. i < length y" and bw: "bin_width \<noteq> 0"
    and fin: "\<forall>i \<in> set pre. \<bar>bin_quotient fl y bin_width pre i\<bar> < FLOAT_INF"
  defines "f \<equiv> bin_key fl y bin_width pre"
  shows "\<exists>p level. p < length pre \<and> histogram_level fl y bin_width pre = Inr (Some level) \<and>
      median fl (map (\<lambda>i. y ! i) [i \<leftarrow> pre. f i = f (pre ! p)]) = Inr level \<and>
      (\<forall>q<length pre. length [k \<leftarrow> pre. f k = f (pre ! q)] \<le> length [k \<leftarrow> pre. f k = f (pre ! p)]) \<and>
      (\<forall>q<p. length [k \<leftarrow> pre. f k = f (pre ! q)] < length [k \<leftarrow> pre. f k = f (pre ! p)])"
proof -
  let ?g = "\<lambda>k. (k, [i \<leftarrow> pre. f i = k])"
  let ?K = "first_keys (map f pre)"
  let ?B = "map ?g ?K"
  let ?key = "\<lambda>kv::int \<times> nat list. length (snd kv)"
  have noidx: "\<not> (\<exists>i \<in> set pre. length y \<le> i)" using rng by auto
  have ymin: "py_min (map (\<lambda>i. y ! i) pre) = Inr (pre_min y pre)"
    unfolding pre_min_def using ne by (intro py_min_Min) simp
  have "\<forall>i \<in> set pre. bin_index_of fl y (pre_min y pre) bin_width i = Inr (f i)"
    using bin_index_of_key [OF bw] fin by (simp add: f_def)
  from fill_bins_loop_ok [OF this, of "[]"]
  have fill: "fill_bins fl y (pre_min y pre) bin_width pre = Inr ?B"
    unfolding fill_bins_def by (simp add: fill_bins_closed)
  have Bne: "?B \<noteq> []" using ne by (auto simp: first_keys_def)
  from py_max_by_split [OF Bne, of ?key] obtain kv as bs where
    mx: "py_max_by ?key ?B = Inr kv" and sp: "?B = as @ kv # bs"
    and lo: "\<forall>a \<in> set as. ?key a < ?key kv" and hi: "\<forall>b \<in> set bs. ?key b \<le> ?key kv"
    by blast
  obtain b best where kv: "kv = (b, best)" by (cases kv)
  have inB: "\<And>e. e \<in> set ?B \<Longrightarrow> snd e = [i \<leftarrow> pre. f i = fst e] \<and> fst e \<in> f ` set pre"
    by auto
  have "kv \<in> set ?B" unfolding sp by simp
  from inB [OF this] have best: "best = [i \<leftarrow> pre. f i = b]" and bin: "b \<in> f ` set pre"
    using kv by auto
  have "?K = map fst ?B" by (simp add: comp_def)
  also have "\<dots> = map fst as @ b # map fst bs" unfolding sp using kv by simp
  finally have "?K = map fst as @ b # map fst bs" .
  from first_keys_split [OF this] obtain us vs where
    uv: "map f pre = us @ b # vs" and us: "set us \<subseteq> set (map fst as)"
    by blast
  define p where "p = length us"
  have plen: "p < length pre"
    using arg_cong [OF uv, of length] by (simp add: p_def)
  have "map f pre ! p = b" unfolding uv p_def by simp
  then have fp: "f (pre ! p) = b" using plen by simp
  have bne: "best \<noteq> []"
    using bin unfolding best by (auto simp: filter_empty_conv)
  then obtain level where med: "median fl (map (\<lambda>i. y ! i) best) = Inr level"
    using median_nonempty [of "map (\<lambda>i. y ! i) best" fl] by auto
  have res: "histogram_level fl y bin_width pre = Inr (Some level)"
    using noidx ymin fill Bne mx med kv
    by (simp add: histogram_level_def Let_def)
  have all: "length [k \<leftarrow> pre. f k = f (pre ! q)] \<le> length best" if "q < length pre" for q
  proof -
    have "?g (f (pre ! q)) \<in> set ?B" using that by auto
    then have "?g (f (pre ! q)) \<in> set as \<or> ?g (f (pre ! q)) = kv \<or> ?g (f (pre ! q)) \<in> set bs"
      unfolding sp by auto
    then show ?thesis using lo hi kv by force
  qed
  have before: "length [k \<leftarrow> pre. f k = f (pre ! q)] < length best" if "q < p" for q
  proof -
    have "q < length pre" using that plen by simp
    then have "f (pre ! q) = map f pre ! q" by simp
    also have "\<dots> = us ! q" unfolding uv using that by (simp add: p_def nth_append)
    finally have "f (pre ! q) \<in> set us" using that by (simp add: p_def)
    with us obtain e where e: "e \<in> set as" "fst e = f (pre ! q)" by auto
    then have "e \<in> set ?B" unfolding sp by simp
    from inB [OF this] have "snd e = [i \<leftarrow> pre. f i = f (pre ! q)]" using e(2) by simp
    with lo e(1) kv show ?thesis by force
  qed
  show ?thesis
    using plen res med all before unfolding best fp [symmetric] by blast
qed

lemma histogram_level_outcome:
  assumes ne: "pre \<noteq> []" and rng: "\<forall>i \<in> set pre. i < length y" and bw: "bin_width \<noteq> 0"
  shows "(histogram_level fl y bin_width pre = Inl OverflowError \<and>
          \<not> (\<forall>i \<in> set pre. \<bar>bin_quotient fl y bin_width pre i\<bar> < FLOAT_INF)) \<or>
         ((\<exists>level. histogram_level fl y bin_width pre = Inr (Some level)) \<and>
          (\<forall>i \<in> set pre. \<bar>bin_quotient fl y bin_width pre i\<bar> < FLOAT_INF))"
proof (cases "\<forall>i \<in> set pre. \<bar>bin_quotient fl y bin_width pre i\<bar> < FLOAT_INF")
  case True
  from histogram_level_spec [OF ne rng bw True] True show ?thesis by blast
next
  case False
  have noidx: "\<not> (\<exists>i \<in> set pre. length y \<le> i)" using rng by auto
  have ymin: "py_min (map (\<lambda>i. y ! i) pre) = Inr (pre_min y pre)"
    unfolding pre_min_def using ne by (intro py_min_Min) simp
  have "\<exists>e. fill_bins fl y (pre_min y pre) bin_width pre = Inl e"
  proof (cases "fill_bins fl y (pre_min y pre) bin_width pre")
    case (Inl e)
    then show ?thesis by blast
  next
    case (Inr bins)
    then have "\<forall>i \<in> set pre. \<exists>k. bin_index_of fl y (pre_min y pre) bin_width i = Inr k"
      unfolding fill_bins_def by (rule fill_bins_loop_Inr)
    with bin_index_of_Inr have "\<forall>i \<in> set pre. \<bar>bin_quotient fl y bin_width pre i\<bar> < FLOAT_INF"
      by blast
    with False show ?thesis by simp
  qed
  then obtain e where e: "fill_bins fl y (pre_min y pre) bin_width pre = Inl e" by blast
  then obtain i where "bin_index_of fl y (pre_min y pre) bin_width i = Inl e"
    unfolding fill_bins_def using fill_bins_loop_error by blast
  from bin_index_of_error [OF this] bw have "e = OverflowError" by simp
  with e have "histogram_level fl y bin_width pre = Inl OverflowError"
    using noidx ymin by (simp add: histogram_level_def)
  with False show ?thesis by simp
qed

lemma consecutive_block_snoc:
  "cur \<noteq> [] \<Longrightarrow> consecutive_block (cur @ [idx]) = (consecutive_block cur \<and> idx = Suc (last cur))"
  by (auto simp: consecutive_block_def successively_append_iff)

lemma consecutive_block_sorted: "consecutive_block xs \<Longrightarrow> sorted_wrt (<) xs"
proof (induction xs rule: rev_induct)
  case Nil
  then show ?case by simp
next
  case (snoc x xs)
  show ?case
  proof (cases "xs = []")
    case True
    then show ?thesis by simp
  next
    case False
    with snoc.prems have b: "consecutive_block xs" and x: "x = Suc (last xs)"
      by (auto simp: consecutive_block_snoc)
    from snoc.IH [OF b] have s: "sorted_wrt (<) xs" .
    have "\<forall>a \<in> set xs. a \<le> last xs"
    proof
      fix a assume a: "a \<in> set xs"
      from False obtain ys l where yl: "xs = ys @ [l]" by (metis rev_exhaust)
      with s a show "a \<le> last xs" by (auto simp: sorted_wrt_append)
    qed
    with s x show ?thesis by (auto simp: sorted_wrt_append)
  qed
qed

lemma runs_loop_blocks:
  "\<forall>r \<in> set runs. r \<noteq> [] \<and> consecutive_block r \<Longrightarrow> cur \<noteq> [] \<Longrightarrow> consecutive_block cur \<Longrightarrow>
   \<forall>r \<in> set (runs_loop runs cur rest). r \<noteq> [] \<and> consecutive_block r"
proof (induction rest arbitrary: runs cur)
  case Nil
  then show ?case by simp
next
  case (Cons idx rest)
  show ?case
  proof (cases "idx = last cur + 1")
    case True
    have "consecutive_block (cur @ [idx])"
      using Cons.prems True by (simp add: consecutive_block_snoc)
    from Cons.IH [OF Cons.prems(1) _ this] True show ?thesis by simp
  next
    case False
    have "\<forall>r \<in> set (runs @ [cur]). r \<noteq> [] \<and> consecutive_block r"
      using Cons.prems by simp
    moreover have "consecutive_block [idx]" by (simp add: consecutive_block_def)
    ultimately have "\<forall>r \<in> set (runs_loop (runs @ [cur]) [idx] rest). r \<noteq> [] \<and> consecutive_block r"
      by (intro Cons.IH) simp_all
    with False show ?thesis by simp
  qed
qed

lemma runs_loop_concat: "concat (runs_loop runs cur rest) = concat runs @ cur @ rest"
  by (induction rest arbitrary: runs cur) auto

lemma candidate_runs_blocks:
  "candidate_indices \<noteq> [] \<Longrightarrow>
   \<forall>r \<in> set (candidate_runs candidate_indices). r \<noteq> [] \<and> consecutive_block r"
  unfolding candidate_runs_def
  by (intro runs_loop_blocks) (simp_all add: consecutive_block_def)

lemma candidate_runs_concat:
  "candidate_indices \<noteq> [] \<Longrightarrow> concat (candidate_runs candidate_indices) = candidate_indices"
  by (simp add: candidate_runs_def runs_loop_concat)

lemma select_baseline_spec:
  assumes ne: "candidate_indices \<noteq> []"
  shows "\<exists>bi. select_baseline candidate_indices min_consecutive = Inr bi \<and> bi \<noteq> [] \<and>
      set bi \<subseteq> set candidate_indices \<and>
      ((consecutive_block bi \<and> min_consecutive \<le> int (length bi) \<and>
        bi \<in> set (candidate_runs candidate_indices) \<and>
        (\<forall>r \<in> set (candidate_runs candidate_indices). length r \<le> length bi)) \<or>
       (bi = candidate_indices \<and>
        (\<forall>r \<in> set (candidate_runs candidate_indices). int (length r) < min_consecutive)))"
proof -
  let ?runs = "candidate_runs candidate_indices"
  let ?valid = "[run \<leftarrow> ?runs. int (length run) \<ge> min_consecutive]"
  show ?thesis
  proof (cases "?valid = []")
    case True
    then have "select_baseline candidate_indices min_consecutive = Inr candidate_indices"
      by (simp add: select_baseline_def Let_def)
    moreover have "\<forall>r \<in> set ?runs. int (length r) < min_consecutive"
      using True by (auto simp: filter_empty_conv)
    ultimately show ?thesis using ne by auto
  next
    case False
    from py_max_by_split [OF False, of length] obtain bi as bs where
      mx: "py_max_by length ?valid = Inr bi" and sp: "?valid = as @ bi # bs"
      and lo: "\<forall>a \<in> set as. length a < length bi" and hi: "\<forall>b \<in> set bs. length b \<le> length bi"
      by blast
    have "bi \<in> set ?valid" unfolding sp by simp
    then have bi: "bi \<in> set ?runs" "min_consecutive \<le> int (length bi)" by auto
    with candidate_runs_blocks [OF ne] have blk: "bi \<noteq> []" "consecutive_block bi" by auto
    have "set bi \<subseteq> set (concat ?runs)" using bi(1) by auto
    then have sub: "set bi \<subseteq> set candidate_indices"
      using candidate_runs_concat [OF ne] by simp
    have longest: "length r \<le> length bi" if "r \<in> set ?runs" for r
    proof (cases "min_consecutive \<le> int (length r)")
      case True
      with that have "r \<in> set ?valid" by simp
      then have "r \<in> set as \<or> r = bi \<or> r \<in> set bs" unfolding sp by auto
      with lo hi show ?thesis by auto
    next
      case False
      with bi(2) show ?thesis by linarith
    qed
    have "select_baseline candidate_indices min_consecutive = Inr bi"
      using False mx by (simp add: select_baseline_def Let_def)
    with blk sub bi longest show ?thesis by blast
  qed
qed

lemma sorted_candidates:
  "sorted_wrt (<) (candidates_of fl y baseline_level tol (pre_indices_of t t_pre))"
  by (simp add: candidates_of_def pre_indices_of_def strict_sorted_iff)

section \<open>Results of the baseline engine\<close>

lemma find_baseline_points_unfold:
  assumes "find_baseline_points fl t y t_pre bin_width tol min_consecutive = Some (Inr (bi, lvl, ex))"
    and "bi \<noteq> []"
  shows "\<exists>level ex'. lvl = Some level \<and>
      histogram_level fl y bin_width (pre_indices_of t t_pre) = Inr (Some level) \<and>
      candidates_of fl y level tol (pre_indices_of t t_pre) \<noteq> [] \<and>
      select_baseline (candidates_of fl y level tol (pre_indices_of t t_pre)) min_consecutive = Inr bi \<and>
      mono_cleanup t y MONO_EPS MONO_T_MAX (Min (set bi))
        (excluded_pre_of fl y level tol (pre_indices_of t t_pre) bi) = Some (Inr ex') \<and>
      ex = sort ex'"
  using assms
  by (auto simp: find_baseline_points_def baseline_after_level_def Let_def
      split: if_splits sum.splits option.splits)

lemma baseline_shape:
  assumes "find_baseline_points fl t y t_pre bin_width tol min_consecutive = Some (Inr (bi, lvl, ex))"
  shows "sorted_wrt (<) bi \<and>
     (consecutive_block bi \<or>
      (\<exists>level. lvl = Some level \<and> bi = candidates_of fl y level tol (pre_indices_of t t_pre) \<and>
         (\<forall>r \<in> set (candidate_runs bi). int (length r) < min_consecutive)))"
proof (cases "bi = []")
  case True
  then show ?thesis by (simp add: consecutive_block_def)
next
  case False
  from find_baseline_points_unfold [OF assms False] obtain level where
    l: "lvl = Some level" and ne: "candidates_of fl y level tol (pre_indices_of t t_pre) \<noteq> []"
    and sel: "select_baseline (candidates_of fl y level tol (pre_indices_of t t_pre)) min_consecutive = Inr bi"
    by blast
  from select_baseline_spec [OF ne, of min_consecutive] sel have
    "(consecutive_block bi) \<or>
       (bi = candidates_of fl y level tol (pre_indices_of t t_pre) \<and>
        (\<forall>r \<in> set (candidate_runs (candidates_of fl y level tol (pre_indices_of t t_pre))).
            int (length r) < min_consecutive))"
    by auto
  then show ?thesis
  proof
    assume b: "consecutive_block bi"
    then show ?thesis using consecutive_block_sorted by blast
  next
    assume f: "bi = candidates_of fl y level tol (pre_indices_of t t_pre) \<and>
        (\<forall>r \<in> set (candidate_runs (candidates_of fl y level tol (pre_indices_of t t_pre))).
            int (length r) < min_consecutive)"
    then have "sorted_wrt (<) bi" using sorted_candidates by simp
    with f l show ?thesis by auto
  qed
qed

lemma pre_indices_bound: "\<forall>i \<in> set (pre_indices_of t t_pre). i < length t"
  by (simp add: pre_indices_of_def)

lemma baseline_after_level_returns:
  assumes len: "length t = length y"
  shows "\<exists>bi ex. baseline_after_level fl t y tol min_consecutive pre level =
             Some (Inr (bi, Some level, ex)) \<and>
           (candidates_of fl y level tol pre = [] \<longrightarrow> bi = [] \<and> ex = [])"
proof -
  let ?c = "candidates_of fl y level tol pre"
  show ?thesis
  proof (cases "?c = []")
    case True
    then have "baseline_after_level fl t y tol min_consecutive pre level =
        Some (Inr ([], Some level, []))"
      by (simp add: baseline_after_level_def Let_def)
    with True show ?thesis by simp
  next
    case False
    from select_baseline_spec [OF False, of min_consecutive] obtain bi where
      bi: "select_baseline ?c min_consecutive = Inr bi" "bi \<noteq> []" by blast
    have noerr: "\<not> (Min (set bi) < length y \<and> length t < length y)" using len by simp
    from mono_cleanup_spec [OF noerr, of MONO_EPS MONO_T_MAX "excluded_pre_of fl y level tol pre bi"]
    obtain ex' where "mono_cleanup t y MONO_EPS MONO_T_MAX (Min (set bi))
        (excluded_pre_of fl y level tol pre bi) = Some (Inr ex')" by blast
    then have "baseline_after_level fl t y tol min_consecutive pre level =
        Some (Inr (bi, Some level, sort ex'))"
      using False bi by (simp add: baseline_after_level_def Let_def)
    with False show ?thesis by simp
  qed
qed

lemma find_baseline_points_level:
  assumes ne: "pre_indices_of t t_pre \<noteq> []"
    and enough: "min_consecutive \<le> int (length (pre_indices_of t t_pre))"
    and bw: "bin_width \<noteq> 0" and len: "length t = length y"
    and fin: "\<forall>i \<in> set (pre_indices_of t t_pre).
        \<bar>bin_quotient fl y bin_width (pre_indices_of t t_pre) i\<bar> < FLOAT_INF"
  shows "\<exists>bi ex level.
      histogram_level fl y bin_width (pre_indices_of t t_pre) = Inr (Some level) \<and>
      find_baseline_points fl t y t_pre bin_width tol min_consecutive = Some (Inr (bi, Some level, ex)) \<and>
      (candidates_of fl y level tol (pre_indices_of t t_pre) = [] \<longrightarrow> bi = [] \<and> ex = [])"
proof -
  let ?pre = "pre_indices_of t t_pre"
  have rng: "\<forall>i \<in> set ?pre. i < length y" using pre_indices_bound [of t t_pre] len by simp
  from histogram_level_spec [OF ne rng bw fin] obtain level where
    h: "histogram_level fl y bin_width ?pre = Inr (Some level)" by blast
  have fb: "find_baseline_points fl t y t_pre bin_width tol min_consecutive =
      baseline_after_level fl t y tol min_consecutive ?pre level"
    using enough h by (simp add: find_baseline_points_def Let_def)
  from baseline_after_level_returns [OF len, of fl tol min_consecutive ?pre level] h fb
  show ?thesis by auto
qed

lemma find_baseline_points_overflow:
  assumes ne: "pre_indices_of t t_pre \<noteq> []"
    and enough: "min_consecutive \<le> int (length (pre_indices_of t t_pre))"
    and bw: "bin_width \<noteq> 0" and len: "length t = length y"
    and inf: "\<not> (\<forall>i \<in> set (pre_indices_of t t_pre).
        \<bar>bin_quotient fl y bin_width (pre_indices_of t t_pre) i\<bar> < FLOAT_INF)"
  shows "find_baseline_points fl t y t_pre bin_width tol min_consecutive = Some (Inl OverflowError)"
proof -
  let ?pre = "pre_indices_of t t_pre"
  have rng: "\<forall>i \<in> set ?pre. i < length y" using pre_indices_bound [of t t_pre] len by simp
  from histogram_level_outcome [OF ne rng bw, of fl] inf
  have "histogram_level fl y bin_width ?pre = Inl OverflowError" by blast
  then show ?thesis using enough by (simp add: find_baseline_points_def Let_def)
qed

lemma no_candidates_negative_tol:
  assumes "tol < 0"
  shows "candidates_of fl y level tol pre = []"
proof -
  have "[i \<leftarrow> pre. \<bar>f_sub fl (y ! i) level\<bar> \<le> tol] = []"
    using assms by (auto simp: filter_empty_conv)
  then show ?thesis by (simp add: candidates_of_def)
qed

lemma zero_bin_width:
  assumes ne: "pre_indices_of t t_pre \<noteq> []"
    and enough: "min_consecutive \<le> int (length (pre_indices_of t t_pre))"
    and len: "length t = length y"
  shows "find_baseline_points fl t y t_pre 0 tol min_consecutive = Some (Inl ZeroDivisionError)"
proof -
  let ?pre = "pre_indices_of t t_pre"
  have rng: "\<not> (\<exists>i \<in> set ?pre. length y \<le> i)"
    using pre_indices_bound [of t t_pre] len by (simp add: not_le)
  have ymin: "py_min (map (\<lambda>i. y ! i) ?pre) = Inr (pre_min y ?pre)"
    unfolding pre_min_def using ne by (intro py_min_Min) simp
  obtain i rest where pre: "?pre = i # rest" using ne by (cases ?pre) auto
  have "fill_bins fl y (pre_min y ?pre) 0 ?pre = Inl ZeroDivisionError"
    unfolding fill_bins_def pre by (simp add: bin_index_of_def py_div_def)
  then have "histogram_level fl y 0 ?pre = Inl ZeroDivisionError"
    using rng ymin by (simp add: histogram_level_def)
  then show ?thesis using enough by (simp add: find_baseline_points_def Let_def)
qed

lemma spike_result_any:
  "find_baseline_points (exact_with lg) spike_t spike_y T_PRE BIN_WIDTH TOL 1 =
     Some (Inr ([0], Some (5 / 100), [3]))"
  by code_simp

lemma spike_result:
  "find_baseline_points exact_arith spike_t spike_y T_PRE BIN_WIDTH TOL 1 =
     Some (Inr ([0], Some (5 / 100), [3]))"
  unfolding exact_arith_def by (rule spike_result_any)

lemma mono_cleanup_total: "\<exists>r. mono_cleanup t y eps t_max start_idx excluded = Some r"
proof (cases "start_idx < length y \<and> length t < length y")
  case True
  then show ?thesis using mono_cleanup_error by blast
next
  case False
  from mono_cleanup_spec [OF False] show ?thesis by blast
qed

lemma find_baseline_points_total:
  "\<exists>r. find_baseline_points fl t y t_pre bin_width tol min_consecutive = Some r"
proof -
  have "\<exists>r. baseline_after_level fl t y tol min_consecutive pre level = Some r" for pre level
  proof (cases "select_baseline (candidates_of fl y level tol pre) min_consecutive")
    case (Inl e)
    then show ?thesis by (simp add: baseline_after_level_def Let_def)
  next
    case (Inr bi)
    obtain r where "mono_cleanup t y MONO_EPS MONO_T_MAX (Min (set bi))
        (excluded_pre_of fl y level tol pre bi) = Some r"
      using mono_cleanup_total by blast
    then show ?thesis using Inr
      by (cases r) (simp_all add: baseline_after_level_def Let_def)
  qed
  then show ?thesis
    by (auto simp: find_baseline_points_def Let_def split: sum.splits option.splits)
qed

lemma excluded_pre_explicit:
  assumes "bi \<noteq> []"
  shows "excluded_pre_of fl y level tol (pre_indices_of t t_pre) bi =
     [i \<leftarrow> [0..<length t]. t ! i \<le> t_pre \<and> i < Min (set bi) \<and> tol < \<bar>f_sub fl (y ! i) level\<bar>]"
  using assms by (simp add: excluded_pre_of_def pre_indices_of_def conj_commute conj_left_commute)

lemma cleanup_optimal:
  assumes res: "find_baseline_points fl t y t_pre bin_width tol min_consecutive = Some (Inr (bi, lvl, ex))"
    and ne: "bi \<noteq> []"
  shows "\<exists>level pre_ex W r. lvl = Some level \<and>
      pre_ex = [i \<leftarrow> [0..<length t].
                  t ! i \<le> t_pre \<and> i < Min (set bi) \<and> tol < \<bar>f_sub fl (y ! i) level\<bar>] \<and>
      W = [i \<leftarrow> [Min (set bi)..<length y]. t ! i \<le> MONO_T_MAX \<and> i \<notin> set pre_ex] \<and>
      subseq r W \<and>
      nondecreasing_within MONO_EPS (map (\<lambda>i. y ! i) r) \<and>
      (\<forall>s. subseq s W \<and> nondecreasing_within MONO_EPS (map (\<lambda>i. y ! i) s)
            \<longrightarrow> length s \<le> length r) \<and>
      ex = sort (pre_ex @ [i \<leftarrow> W. i \<notin> set r])"
proof -
  from find_baseline_points_unfold [OF res ne] obtain level ex' where
    l: "lvl = Some level" and
    mc: "mono_cleanup t y MONO_EPS MONO_T_MAX (Min (set bi))
        (excluded_pre_of fl y level tol (pre_indices_of t t_pre) bi) = Some (Inr ex')" and
    ex: "ex = sort ex'"
    by blast
  define pre_ex where "pre_ex = [i \<leftarrow> [0..<length t].
      t ! i \<le> t_pre \<and> i < Min (set bi) \<and> tol < \<bar>f_sub fl (y ! i) level\<bar>]"
  define W where "W = [i \<leftarrow> [Min (set bi)..<length y]. t ! i \<le> MONO_T_MAX \<and> i \<notin> set pre_ex]"
  have pe: "excluded_pre_of fl y level tol (pre_indices_of t t_pre) bi = pre_ex"
    unfolding pre_ex_def by (rule excluded_pre_explicit [OF ne])
  have w: "mono_indices_of t y MONO_T_MAX (Min (set bi)) pre_ex = W"
    by (simp add: mono_indices_of_def W_def)
  from mono_cleanup_spec [OF mono_cleanup_Inr_noerr [OF mc], of MONO_EPS MONO_T_MAX pre_ex]
    mc l ex
  have "\<exists>r. subseq r W \<and> nondecreasing_within MONO_EPS (map (\<lambda>i. y ! i) r) \<and>
      (\<forall>s. subseq s W \<and> nondecreasing_within MONO_EPS (map (\<lambda>i. y ! i) s)
            \<longrightarrow> length s \<le> length r) \<and>
      ex = sort (pre_ex @ [i \<leftarrow> W. i \<notin> set r])"
    unfolding pe w by auto
  with l pre_ex_def W_def show ?thesis by blast
qed

text \<open>
  Claim C2. \<open>find_baseline_points\<close> always returns (the walk along the predecessors
  ends), and whenever it returns a non-empty baseline \<open>bi\<close> with the level \<open>level\<close>:
  let \<open>pre_ex\<close> be the points already excluded by the pre-baseline step (the pre-window
  points before the first baseline index whose computed deviation from the level exceeds
  \<open>tol\<close>), and let the window \<open>W\<close> be the indices from the first baseline index
  \<open>Min (set bi)\<close> onward whose time is at most \<open>MONO_T_MAX\<close> and that are not in \<open>pre_ex\<close>.
  Then there is a sublist \<open>r\<close> of \<open>W\<close> (the retained points) whose values are
  non-decreasing within \<open>MONO_EPS\<close>, no sublist of \<open>W\<close> with that property is longer
  than \<open>r\<close>, and the returned excluded indices are \<open>pre_ex\<close> together with exactly the
  points of \<open>W\<close> outside \<open>r\<close>.
\<close>

theorem monotonic_cleanup_longest:
  "(\<exists>res. find_baseline_points fl t y t_pre bin_width tol min_consecutive = Some res) \<and>
   (find_baseline_points fl t y t_pre bin_width tol min_consecutive = Some (Inr (bi, lvl, ex)) \<and>
    bi \<noteq> [] \<longrightarrow>
    (\<exists>level pre_ex W r. lvl = Some level \<and>
      pre_ex = [i \<leftarrow> [0..<length t].
                  t ! i \<le> t_pre \<and> i < Min (set bi) \<and> tol < \<bar>f_sub fl (y ! i) level\<bar>] \<and>
      W = [i \<leftarrow> [Min (set bi)..<length y]. t ! i \<le> MONO_T_MAX \<and> i \<notin> set pre_ex] \<and>
      subseq r W \<and>
      nondecreasing_within MONO_EPS (map (\<lambda>i. y ! i) r) \<and>
      (\<forall>s. subseq s W \<and> nondecreasing_within MONO_EPS (map (\<lambda>i. y ! i) s)
            \<longrightarrow> length s \<le> length r) \<and>
      ex = sort (pre_ex @ [i \<leftarrow> W. i \<notin> set r])))"
  using find_baseline_points_total [of fl t y t_pre bin_width tol min_consecutive]
    cleanup_optimal [of fl t y t_pre bin_width tol min_consecutive bi lvl ex]
  by blast

lemma limit_result_any:
  "find_baseline_points (exact_with lg) limit_t limit_y T_PRE 1 (1 / 2) MIN_CONSECUTIVE =
     Some (Inr ([1, 2, 3], Some 1, [0, 5]))"
  by code_simp

lemma limit_result:
  "find_baseline_points exact_arith limit_t limit_y T_PRE 1 (1 / 2) MIN_CONSECUTIVE =
     Some (Inr ([1, 2, 3], Some 1, [0, 5]))"
  unfolding exact_arith_def by (rule limit_result_any)

lemma limit_window:
  "[i \<leftarrow> [0..<length limit_t].
      limit_t ! i \<le> T_PRE \<and> i < Min (set [1, 2, 3]) \<and>
      1 / 2 < \<bar>f_sub (exact_with lg) (limit_y ! i) 1\<bar>] = [0]"
  "[i \<leftarrow> [Min (set [1, 2, 3])..<length limit_y]. limit_t ! i \<le> MONO_T_MAX \<and> i \<notin> set [0]] =
     [1, 2, 3, 4, 5]"
  by code_simp+

theorem monotonic_cleanup_longest_witness:
  "\<exists>r. subseq r [1, 2, 3, 4, 5] \<and>
      nondecreasing_within MONO_EPS (map (\<lambda>i. limit_y ! i) r) \<and>
      (\<forall>s. subseq s [1, 2, 3, 4, 5] \<and> nondecreasing_within MONO_EPS (map (\<lambda>i. limit_y ! i) s)
            \<longrightarrow> length s \<le> length r) \<and>
      [0, 5] = sort ([0] @ [i \<leftarrow> [1, 2, 3, 4, 5]. i \<notin> set r])"
proof -
  have h: "find_baseline_points exact_arith limit_t limit_y T_PRE 1 (1 / 2) MIN_CONSECUTIVE =
      Some (Inr ([1, 2, 3], Some 1, [0, 5])) \<and> [1, 2, 3::nat] \<noteq> []"
    using limit_result by simp
  from h monotonic_cleanup_longest [of exact_arith limit_t limit_y T_PRE 1 "1 / 2" MIN_CONSECUTIVE
      "[1, 2, 3]" "Some 1" "[0, 5]"]
  obtain level pre_ex W r where
    l: "Some (1::real) = Some level" and
    pe: "pre_ex = [i \<leftarrow> [0..<length limit_t].
          limit_t ! i \<le> T_PRE \<and> i < Min (set [1, 2, 3]) \<and>
          1 / 2 < \<bar>f_sub exact_arith (limit_y ! i) level\<bar>]" and
    w: "W = [i \<leftarrow> [Min (set [1, 2, 3])..<length limit_y].
          limit_t ! i \<le> MONO_T_MAX \<and> i \<notin> set pre_ex]" and
    r: "subseq r W" "nondecreasing_within MONO_EPS (map (\<lambda>i. limit_y ! i) r)"
      "\<forall>s. subseq s W \<and> nondecreasing_within MONO_EPS (map (\<lambda>i. limit_y ! i) s)
          \<longrightarrow> length s \<le> length r"
      "[0, 5] = sort (pre_ex @ [i \<leftarrow> W. i \<notin> set r])"
    by blast
  have "level = 1" using l by simp
  then have pe': "pre_ex = [0]"
    using pe limit_window(1) [of ln] by (simp add: exact_arith_def)
  then have w': "W = [1, 2, 3, 4, 5]"
    using w limit_window(2) by simp
  show ?thesis using r unfolding pe' w' by blast
qed

text \<open>
  The greedy cleanup of the older file is a different procedure: after one high reading
  it excludes the three rising readings that follow, although they form a longer
  non-decreasing sublist than the single reading it keeps.
\<close>

lemma greedy_cleanup_not_longest:
  "greedy_cleanup exact_arith MONO_EPS_test0 [5, 1, 2, 3] [] = [1, 2, 3] \<and>
   nondecreasing_within MONO_EPS_test0 [1, 2, 3]"
  by (simp add: greedy_cleanup_def MONO_EPS_test0_def nondecreasing_within_def
      exact_arith_def exact_with_def)

text \<open>
  Claim C9. Whenever \<open>find_baseline_points\<close> returns a non-empty baseline and the
  excluded indices \<open>ex\<close>, running the cleanup step again from the same first baseline
  index with \<open>ex\<close> as the already excluded indices returns \<open>ex\<close> unchanged: no further
  point is excluded, and the points it works on are non-decreasing within \<open>MONO_EPS\<close>.
\<close>

theorem monotonic_cleanup_idempotent:
  assumes res: "find_baseline_points fl t y t_pre bin_width tol min_consecutive = Some (Inr (bi, lvl, ex))"
    and ne: "bi \<noteq> []"
  shows "mono_cleanup t y MONO_EPS MONO_T_MAX (Min (set bi)) ex = Some (Inr ex) \<and>
     nondecreasing_within MONO_EPS
       (map (\<lambda>i. y ! i) (mono_indices_of t y MONO_T_MAX (Min (set bi)) ex))"
proof -
  from find_baseline_points_unfold [OF res ne] obtain level ex' where
    mc: "mono_cleanup t y MONO_EPS MONO_T_MAX (Min (set bi))
        (excluded_pre_of fl y level tol (pre_indices_of t t_pre) bi) = Some (Inr ex')" and
    ex: "ex = sort ex'"
    by blast
  have "set ex = set ex'" using ex by simp
  from mono_cleanup_idem [OF mc this] show ?thesis .
qed

theorem monotonic_cleanup_idempotent_witness:
  "mono_cleanup spike_t spike_y MONO_EPS MONO_T_MAX (Min (set [0])) [3] = Some (Inr [3]) \<and>
   nondecreasing_within MONO_EPS
     (map (\<lambda>i. spike_y ! i) (mono_indices_of spike_t spike_y MONO_T_MAX (Min (set [0])) [3]))"
  by (rule monotonic_cleanup_idempotent [OF spike_result]) simp

text \<open>
  Claim C3, as the code has it. For a series of equally many times and values, a bin
  width that is not zero, a non-empty pre-window of at least \<open>min_consecutive\<close> points
  and quotients \<open>(value - minimum) / bin_width\<close> that stay finite, \<open>find_baseline_points\<close>
  returns normally with a baseline level. The bin of a pre-window point is the integer
  part of its quotient as the machine computes it (\<open>bin_key\<close>). There is a pre-window
  position \<open>p\<close> such that the level is the median of the values in the bin of that
  point: the middle one of the sorted values, or half the sum of the two middle ones;
  no bin has more members than that bin; and every earlier point lies in a bin with
  strictly fewer members, so the first bin encountered among the fullest ones wins.
\<close>

theorem baseline_level_mode_median:
  assumes ne: "pre_indices_of t t_pre \<noteq> []"
    and enough: "min_consecutive \<le> int (length (pre_indices_of t t_pre))"
    and bw: "bin_width \<noteq> 0" and len: "length t = length y"
    and fin: "\<forall>i \<in> set (pre_indices_of t t_pre).
        \<bar>bin_quotient fl y bin_width (pre_indices_of t t_pre) i\<bar> < FLOAT_INF"
  shows "\<exists>p<length (pre_indices_of t t_pre). \<exists>bi ex level vs.
      find_baseline_points fl t y t_pre bin_width tol min_consecutive = Some (Inr (bi, Some level, ex)) \<and>
      vs = sort (map (\<lambda>i. y ! i)
             (bin_members fl y bin_width (pre_indices_of t t_pre) (pre_indices_of t t_pre ! p))) \<and>
      level = (if odd (length vs) then vs ! (length vs div 2)
               else f_div fl (f_add fl (vs ! (length vs div 2 - 1)) (vs ! (length vs div 2))) 2) \<and>
      (\<forall>q<length (pre_indices_of t t_pre).
          length (bin_members fl y bin_width (pre_indices_of t t_pre) (pre_indices_of t t_pre ! q))
          \<le> length (bin_members fl y bin_width (pre_indices_of t t_pre) (pre_indices_of t t_pre ! p))) \<and>
      (\<forall>q<p.
          length (bin_members fl y bin_width (pre_indices_of t t_pre) (pre_indices_of t t_pre ! q))
          < length (bin_members fl y bin_width (pre_indices_of t t_pre) (pre_indices_of t t_pre ! p)))"
proof -
  let ?pre = "pre_indices_of t t_pre"
  let ?f = "bin_key fl y bin_width ?pre"
  have rng: "\<forall>i \<in> set ?pre. i < length y" using pre_indices_bound [of t t_pre] len by simp
  from histogram_level_spec [OF ne rng bw fin] obtain p level where
    p: "p < length ?pre" and h: "histogram_level fl y bin_width ?pre = Inr (Some level)"
    and med: "median fl (map (\<lambda>i. y ! i) [i \<leftarrow> ?pre. ?f i = ?f (?pre ! p)]) = Inr level"
    and all: "\<forall>q<length ?pre. length [k \<leftarrow> ?pre. ?f k = ?f (?pre ! q)]
                \<le> length [k \<leftarrow> ?pre. ?f k = ?f (?pre ! p)]"
    and before: "\<forall>q<p. length [k \<leftarrow> ?pre. ?f k = ?f (?pre ! q)]
                < length [k \<leftarrow> ?pre. ?f k = ?f (?pre ! p)]"
    by blast
  from find_baseline_points_level [OF ne enough bw len fin, of tol] h obtain bi ex where
    res: "find_baseline_points fl t y t_pre bin_width tol min_consecutive = Some (Inr (bi, Some level, ex))"
    by auto
  define vs where "vs = sort (map (\<lambda>i. y ! i) (bin_members fl y bin_width ?pre (?pre ! p)))"
  have "?pre ! p \<in> set ?pre" using p by simp
  then have "bin_members fl y bin_width ?pre (?pre ! p) \<noteq> []"
    by (auto simp: bin_members_def filter_empty_conv)
  then have vne: "length vs \<noteq> 0" by (simp add: vs_def)
  have "median fl (map (\<lambda>i. y ! i) (bin_members fl y bin_width ?pre (?pre ! p))) = Inr level"
    using med by (simp add: bin_members_def)
  then have lev: "level = (if odd (length vs) then vs ! (length vs div 2)
     else f_div fl (f_add fl (vs ! (length vs div 2 - 1)) (vs ! (length vs div 2))) 2)"
    using vne unfolding median_def Let_def vs_def [symmetric]
    by (auto simp: odd_iff_mod_2_eq_one split: if_splits)
  show ?thesis
    using p res vs_def lev all before unfolding bin_members_def [symmetric] by blast
qed

lemma tie_result_any:
  "find_baseline_points (exact_with lg) tie_t tie_y T_PRE 2 (1 / 2) 2 =
     Some (Inr ([0, 1], Some (7 / 2), [2, 3]))"
  by code_simp

lemma tie_pre: "pre_indices_of tie_t T_PRE = [0, 1, 2, 3, 4]"
  by code_simp

lemma tie_bins:
  "map (bin_key (exact_with lg) tie_y 2 [0, 1, 2, 3, 4]) [0, 1, 2, 3, 4] = [1, 1, 0, 0, 4]"
  "map (bin_quotient (exact_with lg) tie_y 2 [0, 1, 2, 3, 4]) [0, 1, 2, 3, 4] = [1, 3 / 2, 0, 1 / 2, 4]"
  by code_simp+

theorem baseline_level_mode_median_witness:
  "find_baseline_points exact_arith tie_t tie_y T_PRE 2 (1 / 2) 2 =
     Some (Inr ([0, 1], Some (7 / 2), [2, 3])) \<and>
   (\<exists>p<length (pre_indices_of tie_t T_PRE). \<exists>vs.
      vs = sort (map (\<lambda>i. tie_y ! i)
             (bin_members exact_arith tie_y 2 (pre_indices_of tie_t T_PRE)
                (pre_indices_of tie_t T_PRE ! p))) \<and>
      7 / 2 = (if odd (length vs) then vs ! (length vs div 2)
               else f_div exact_arith
                      (f_add exact_arith (vs ! (length vs div 2 - 1)) (vs ! (length vs div 2))) 2))"
proof -
  have h1: "pre_indices_of tie_t T_PRE \<noteq> []" by code_simp
  have h2: "2 \<le> int (length (pre_indices_of tie_t T_PRE))" by code_simp
  have h3: "(2::real) \<noteq> 0" by simp
  have h4: "length tie_t = length tie_y" by (simp add: tie_t_def tie_y_def)
  have "list_all (\<lambda>q. \<bar>q\<bar> < FLOAT_INF) [1, 3 / 2, 0, 1 / 2, 4::real]"
    by (simp add: FLOAT_INF_def)
  then have "\<forall>i \<in> set [0, 1, 2, 3, 4].
      \<bar>bin_quotient (exact_with ln) tie_y 2 [0, 1, 2, 3, 4] i\<bar> < FLOAT_INF"
    unfolding tie_bins(2) [of ln, symmetric] by (simp add: list_all_iff)
  then have h5: "\<forall>i \<in> set (pre_indices_of tie_t T_PRE).
      \<bar>bin_quotient exact_arith tie_y 2 (pre_indices_of tie_t T_PRE) i\<bar> < FLOAT_INF"
    unfolding tie_pre exact_arith_def .
  have res: "find_baseline_points exact_arith tie_t tie_y T_PRE 2 (1 / 2) 2 =
      Some (Inr ([0, 1], Some (7 / 2), [2, 3]))"
    unfolding exact_arith_def by (rule tie_result_any)
  from baseline_level_mode_median [OF h1 h2 h3 h4 h5, of "1 / 2"] res
  show ?thesis by auto
qed

text \<open>
  The claim as written fails where the options are not checked: a zero bin width ends
  in a division by zero; with \<open>min_consecutive = 0\<close> an empty pre-window passes the
  length test and the minimum of no values is taken; and with the bin width \<open>1e-310\<close>
  the quotient of the second reading is beyond the range of the doubles, so that
  \<^verbatim>\<open>int()\<close> raises \<^verbatim>\<open>OverflowError\<close>.
\<close>

lemma unchecked_bin_width_any:
  "find_baseline_points (exact_with lg) [0, 1, 2] [0, 0, 0] T_PRE 0 TOL MIN_CONSECUTIVE =
     Some (Inl ZeroDivisionError)"
  "find_baseline_points (exact_with lg) [50] [1] T_PRE BIN_WIDTH TOL 0 = Some (Inl ValueError)"
  by code_simp+

lemma tiny_bin_width:
  "find_baseline_points exact_arith [0, 1, 2] [0, 1 / 2, 1] T_PRE (1 / 10 ^ 310) TOL MIN_CONSECUTIVE =
     Some (Inl OverflowError)"
proof -
  have pre: "pre_indices_of [0, 1, 2] T_PRE = [0, 1, 2]" by code_simp
  have h1: "pre_indices_of [0, 1, 2] T_PRE \<noteq> []" unfolding pre by simp
  have h2: "MIN_CONSECUTIVE \<le> int (length (pre_indices_of [0, 1, 2] T_PRE))"
    unfolding pre by (simp add: MIN_CONSECUTIVE_def)
  have h3: "(1::real) / 10 ^ 310 \<noteq> 0" by simp
  have h4: "length [0, 1, 2::real] = length [0, 1 / 2, 1::real]" by simp
  have "\<not> \<bar>bin_quotient exact_arith [0, 1 / 2, 1] (1 / 10 ^ 310) [0, 1, 2] 2\<bar> < FLOAT_INF"
    by (simp add: bin_quotient_def pre_min_def exact_arith_def exact_with_def FLOAT_INF_def)
  then have h5: "\<not> (\<forall>i \<in> set (pre_indices_of [0, 1, 2] T_PRE).
      \<bar>bin_quotient exact_arith [0, 1 / 2, 1] (1 / 10 ^ 310) (pre_indices_of [0, 1, 2] T_PRE) i\<bar>
        < FLOAT_INF)"
    unfolding pre by simp
  show ?thesis by (rule find_baseline_points_overflow [OF h1 h2 h3 h4 h5])
qed

theorem baseline_level_unchecked_options_counterexample:
  "find_baseline_points exact_arith [0, 1, 2] [0, 0, 0] T_PRE 0 TOL MIN_CONSECUTIVE =
     Some (Inl ZeroDivisionError) \<and>
   find_baseline_points exact_arith [50] [1] T_PRE BIN_WIDTH TOL 0 = Some (Inl ValueError) \<and>
   find_baseline_points exact_arith [0, 1, 2] [0, 1 / 2, 1] T_PRE (1 / 10 ^ 310) TOL MIN_CONSECUTIVE =
     Some (Inl OverflowError)"
  using unchecked_bin_width_any [of ln] tiny_bin_width by (simp add: exact_arith_def)

section \<open>The log-phase engine: mask, runs and windows\<close>

lemma fold_mark_length: "length (fold (\<lambda>i m. m[i := True]) is m) = length m"
  by (induction "is" arbitrary: m) auto

lemma fold_mark_nth:
  "k < length m \<Longrightarrow> fold (\<lambda>i m. m[i := True]) is m ! k = (m ! k \<or> k \<in> set is)"
proof (induction "is" arbitrary: m)
  case Nil
  then show ?case by simp
next
  case (Cons a "is")
  have "k < length (m[a := True])" using Cons.prems by simp
  from Cons.IH [OF this] have
    "fold (\<lambda>i m. m[i := True]) is (m[a := True]) ! k = (m[a := True] ! k \<or> k \<in> set is)" .
  then show ?case using Cons.prems by (cases "k = a") simp_all
qed

lemma fold_windows_length:
  "length (fold (\<lambda>w is_log. fold (\<lambda>i m. m[i := True]) [win_start w..<win_end w + 1] is_log) ws m)
     = length m"
  by (induction ws arbitrary: m) (auto simp: fold_mark_length)

lemma fold_windows_nth:
  "k < length m \<Longrightarrow>
   fold (\<lambda>w is_log. fold (\<lambda>i m. m[i := True]) [win_start w..<win_end w + 1] is_log) ws m ! k =
     (m ! k \<or> (\<exists>w \<in> set ws. win_start w \<le> k \<and> k \<le> win_end w))"
proof (induction ws arbitrary: m)
  case Nil
  then show ?case by simp
next
  case (Cons w ws)
  have "k < length (fold (\<lambda>i m. m[i := True]) [win_start w..<win_end w + 1] m)"
    using Cons.prems by (simp add: fold_mark_length)
  from Cons.IH [OF this] Cons.prems show ?case
    by (auto simp: fold_mark_nth)
qed

lemma mark_windows_spec:
  assumes "mark_windows n log_windows = Inr is_log"
  shows "length is_log = n \<and>
     (\<forall>k<n. is_log ! k = (\<exists>w \<in> set log_windows. win_start w \<le> k \<and> k \<le> win_end w))"
proof -
  from assms have e: "is_log =
      fold (\<lambda>w is_log. fold (\<lambda>i m. m[i := True]) [win_start w..<win_end w + 1] is_log)
        log_windows (replicate n False)"
    by (auto simp: mark_windows_def split: if_splits)
  have l: "length is_log = n" unfolding e fold_windows_length by simp
  have "is_log ! k = (\<exists>w \<in> set log_windows. win_start w \<le> k \<and> k \<le> win_end w)" if "k < n" for k
  proof -
    have "k < length (replicate n False)" using that by simp
    from fold_windows_nth [OF this, of log_windows] that show ?thesis unfolding e by simp
  qed
  with l show ?thesis by blast
qed

lemma mask_runs_loop_spec:
  assumes "flags = pre @ xs"
    and "\<forall>r \<in> set runs. \<exists>a b. r = [a..<b] \<and> maximal_run flags a b"
    and "c \<le> length pre" and "current = [c..<length pre]"
    and "\<forall>i. c \<le> i \<and> i < length pre \<longrightarrow> flags ! i"
    and "c = 0 \<or> \<not> flags ! (c - 1)"
  shows "\<forall>r \<in> set (mask_runs_loop runs current (enumerate (length pre) xs)).
           \<exists>a b. r = [a..<b] \<and> maximal_run flags a b"
  using assms
proof (induction xs arbitrary: pre runs current c)
  case Nil
  then have "flags = pre" by simp
  show ?case
  proof (cases "current = []")
    case True
    then show ?thesis using Nil.prems(2) by simp
  next
    case False
    then have "c < length pre" using Nil.prems(4) by auto
    then have "maximal_run flags c (length pre)"
      using Nil.prems \<open>flags = pre\<close> by (auto simp: maximal_run_def)
    then show ?thesis using Nil.prems(2,4) False by auto
  qed
next
  case (Cons flag rest)
  let ?n = "length pre"
  have m: "flags = (pre @ [flag]) @ rest" using Cons.prems(1) by simp
  have mn: "flags ! ?n = flag" using Cons.prems(1) by simp
  have en: "enumerate ?n (flag # rest) = (?n, flag) # enumerate (length (pre @ [flag])) rest"
    by simp
  show ?case
  proof (cases flag)
    case True
    have "\<forall>r \<in> set (mask_runs_loop runs (current @ [?n]) (enumerate (length (pre @ [flag])) rest)).
           \<exists>a b. r = [a..<b] \<and> maximal_run flags a b"
    proof (rule Cons.IH [OF m Cons.prems(2), of c])
      show "c \<le> length (pre @ [flag])" using Cons.prems(3) by simp
      show "current @ [?n] = [c..<length (pre @ [flag])]"
        using Cons.prems(3,4) by simp
      show "\<forall>i. c \<le> i \<and> i < length (pre @ [flag]) \<longrightarrow> flags ! i"
        using Cons.prems(5) mn True by (auto simp: less_Suc_eq)
      show "c = 0 \<or> \<not> flags ! (c - 1)" using Cons.prems(6) .
    qed
    then show ?thesis unfolding en using True by simp
  next
    case False
    have nlt: "?n < length flags" using Cons.prems(1) by simp
    show ?thesis
    proof (cases "current = []")
      case True
      have "\<forall>r \<in> set (mask_runs_loop runs [] (enumerate (length (pre @ [flag])) rest)).
           \<exists>a b. r = [a..<b] \<and> maximal_run flags a b"
      proof (rule Cons.IH [OF m Cons.prems(2), of "Suc ?n"])
        show "Suc ?n \<le> length (pre @ [flag])" by simp
        show "[] = [Suc ?n..<length (pre @ [flag])]" by simp
        show "\<forall>i. Suc ?n \<le> i \<and> i < length (pre @ [flag]) \<longrightarrow> flags ! i" by auto
        show "Suc ?n = 0 \<or> \<not> flags ! (Suc ?n - 1)" using mn False by simp
      qed
      then show ?thesis unfolding en using False True by simp
    next
      case ne: False
      then have "c < ?n" using Cons.prems(4) by auto
      then have "maximal_run flags c ?n"
        using Cons.prems(5,6) nlt mn False by (auto simp: maximal_run_def)
      then have r: "\<forall>r \<in> set (runs @ [current]). \<exists>a b. r = [a..<b] \<and> maximal_run flags a b"
        using Cons.prems(2,4) by auto
      have "\<forall>r \<in> set (mask_runs_loop (runs @ [current]) [] (enumerate (length (pre @ [flag])) rest)).
           \<exists>a b. r = [a..<b] \<and> maximal_run flags a b"
      proof (rule Cons.IH [OF m r, of "Suc ?n"])
        show "Suc ?n \<le> length (pre @ [flag])" by simp
        show "[] = [Suc ?n..<length (pre @ [flag])]" by simp
        show "\<forall>i. Suc ?n \<le> i \<and> i < length (pre @ [flag]) \<longrightarrow> flags ! i" by auto
        show "Suc ?n = 0 \<or> \<not> flags ! (Suc ?n - 1)" using mn False by simp
      qed
      then show ?thesis unfolding en using False ne by simp
    qed
  qed
qed

lemma mask_runs_spec:
  "\<forall>r \<in> set (mask_runs flags). \<exists>a b. r = [a..<b] \<and> maximal_run flags a b"
  unfolding mask_runs_def
  using mask_runs_loop_spec [of flags "[]" flags "[]" 0 "[]"] by simp

lemma consecutive_block_upt: "consecutive_block [a..<b]"
proof (induction b)
  case 0
  then show ?case by (simp add: consecutive_block_def)
next
  case (Suc b)
  show ?case
  proof (cases "a < b")
    case True
    then have "[a..<Suc b] = [a..<b] @ [b]" by simp
    moreover have "[a..<b] \<noteq> []" "last [a..<b] = b - 1" using True by auto
    ultimately show ?thesis using Suc True by (simp add: consecutive_block_snoc del: upt_Suc)
  next
    case False
    then have "[a..<Suc b] = [] \<or> [a..<Suc b] = [b]" by auto
    then show ?thesis by (auto simp: consecutive_block_def)
  qed
qed

lemma py_max_by_mem: "py_max_by key xs = Inr r \<Longrightarrow> r \<in> set xs"
  by (cases "xs = []") (use py_max_by_split [of xs key] in \<open>auto simp: py_max_by_def\<close>)

lemma log_phase_from_windows_block:
  assumes "log_phase_from_windows fl n mu_rel_min mu_rel_max K_est good_windows = Inr (li, a, b, c)"
  shows "consecutive_block li"
proof (cases "li = []")
  case True
  then show ?thesis by (simp add: consecutive_block_def)
next
  case False
  with assms obtain is_log where "py_max_by length (mask_runs is_log) = Inr li"
    by (auto simp: log_phase_from_windows_def Let_def split: if_splits sum.splits)
  then have "li \<in> set (mask_runs is_log)" by (rule py_max_by_mem)
  with mask_runs_spec [of is_log] obtain a b where "li = [a..<b]" by blast
  then show ?thesis by (simp add: consecutive_block_upt)
qed

lemma detect_log_phase_block:
  assumes "detect_log_phase fl t y window_size r2_min od_min frac_k_max mu_rel_min mu_rel_max =
     Inr (li, a, b, c)"
  shows "consecutive_block li"
proof (cases "li = []")
  case True
  then show ?thesis by (simp add: consecutive_block_def)
next
  case False
  with assms obtain n K good where
    "log_phase_from_windows fl n mu_rel_min mu_rel_max K good = Inr (li, a, b, c)"
    by (auto simp: detect_log_phase_def Let_def split: if_splits sum.splits option.splits)
  then show ?thesis by (rule log_phase_from_windows_block)
qed

lemma scan_windows_ok:
  "\<forall>k \<in> set ks. \<exists>r. fit k = Inr r \<Longrightarrow>
   scan_windows fit ks acc = Inr (acc @ List.map_filter (\<lambda>k. fit_result (fit k)) ks)"
proof (induction ks arbitrary: acc)
  case Nil
  then show ?case by (simp add: map_filter_simps)
next
  case (Cons k ks)
  then obtain r where r: "fit k = Inr r" by auto
  have ih: "scan_windows fit ks acc' = Inr (acc' @ List.map_filter (\<lambda>k. fit_result (fit k)) ks)"
    for acc'
    using Cons by simp
  show ?case
    by (cases r) (simp_all add: r ih map_filter_simps fit_result_def)
qed

lemma scan_windows_Inr:
  "scan_windows fit ks acc = Inr good \<Longrightarrow> \<forall>k \<in> set ks. \<exists>r. fit k = Inr r"
  by (induction ks arbitrary: acc) (auto split: sum.splits option.splits)

lemma scan_windows_error:
  "scan_windows fit ks acc = Inl e \<Longrightarrow> \<exists>k \<in> set ks. fit k = Inl e"
  by (induction ks arbitrary: acc) (auto split: sum.splits option.splits)

lemma scan_windows_cases:
  "(\<exists>good. scan_windows fit ks acc = Inr good) \<or>
   (\<exists>e. scan_windows fit ks acc = Inl e \<and> (\<exists>k \<in> set ks. fit k = Inl e))"
  using scan_windows_error [of fit ks acc] by (cases "scan_windows fit ks acc") auto

lemma py_max_Max: "xs \<noteq> [] \<Longrightarrow> py_max xs = Inr (Max (set xs))"
proof (cases xs)
  case Nil
  assume "xs \<noteq> []"
  with Nil show ?thesis by simp
next
  case (Cons a list)
  have "fold max list a = Max (set (a # list))"
    by (rule Max.set_eq_fold [symmetric])
  then show ?thesis unfolding Cons py_max_def by simp
qed

lemma py_slice_window:
  assumes "1 \<le> window_size" "int k + window_size \<le> int (length xs)"
  shows "py_slice xs (int k) (int k + window_size) = take (nat window_size) (drop k xs)"
  using assms by (simp add: py_slice_def Let_def min_def)

lemma window_positions_mem:
  "k \<in> set (window_positions valid window_size) \<Longrightarrow> int k + window_size \<le> int (length valid)"
  by (auto simp: window_positions_def)

lemma window_positions_upt:
  assumes "1 \<le> window_size" "window_size \<le> int (length valid)"
  shows "window_positions valid window_size = [0..<length valid + 1 - nat window_size]"
proof -
  have "nat (int (length valid) - window_size + 1) = length valid + 1 - nat window_size"
    using assms by linarith
  then show ?thesis by (simp add: window_positions_def)
qed

lemma window_fit_spec:
  assumes K: "0 < K_est"
    and ne: "py_slice valid (int k) (int k + window_size) \<noteq> []"
    and rng: "\<forall>i \<in> set (py_slice valid (int k) (int k + window_size)). i < length t"
  shows "(window_fit fl t y window_size r2_min frac_k_max K_est valid k = Inl OverflowError \<and>
          linear_regression fl (map (\<lambda>i. t ! i) (py_slice valid (int k) (int k + window_size)))
            (map (\<lambda>i. f_log fl (y ! i)) (py_slice valid (int k) (int k + window_size))) =
              Inl OverflowError) \<or>
     (\<exists>r. window_fit fl t y window_size r2_min frac_k_max K_est valid k = Inr r \<and>
        map_option win_slope r =
          qualifying_slope fl t y r2_min frac_k_max K_est
            (py_slice valid (int k) (int k + window_size)) \<and>
        (\<forall>w. r = Some w \<longrightarrow>
           win_start w = hd (py_slice valid (int k) (int k + window_size)) \<and>
           win_end w = last (py_slice valid (int k) (int k + window_size))))"
proof -
  let ?idxs = "py_slice valid (int k) (int k + window_size)"
  let ?Y = "map (\<lambda>i. y ! i) ?idxs"
  let ?lr = "linear_regression fl (map (\<lambda>i. t ! i) ?idxs) (map (\<lambda>i. f_log fl (y ! i)) ?idxs)"
  have noidx: "\<not> (\<exists>i \<in> set ?idxs. length t \<le> i)" using rng by auto
  have mx: "py_max ?Y = Inr (Max (set ?Y))" using ne by (intro py_max_Max) simp
  have dv: "py_div fl (Max (set ?Y)) K_est = Inr (f_div fl (Max (set ?Y)) K_est)"
    using K by (simp add: py_div_def)
  have pos: "(\<exists>val \<in> set ?Y. val \<le> 0) = (\<not> (\<forall>i \<in> set ?idxs. 0 < y ! i))"
    by (auto simp: not_less)
  have lnmap: "map (f_log fl) ?Y = map (\<lambda>i. f_log fl (y ! i)) ?idxs" by simp
  show ?thesis
  proof (cases "f_div fl (Max (set ?Y)) K_est < frac_k_max \<and> (\<forall>i \<in> set ?idxs. 0 < y ! i)")
    case False
    then have "window_fit fl t y window_size r2_min frac_k_max K_est valid k = Inr None"
      unfolding window_fit_def Let_def using noidx mx dv pos
      by (simp only: if_False sum.case) auto
    moreover have "qualifying_slope fl t y r2_min frac_k_max K_est ?idxs = None"
      unfolding qualifying_slope_def by (rule if_not_P [OF False])
    ultimately show ?thesis by simp
  next
    case True
    then have passes: "\<not> frac_k_max \<le> f_div fl (Max (set ?Y)) K_est"
        "\<not> (\<exists>val \<in> set ?Y. val \<le> 0)"
      using pos by auto
    have wf: "window_fit fl t y window_size r2_min frac_k_max K_est valid k =
        (case ?lr of
           Inl e \<Rightarrow> Inl e
         | Inr fit \<Rightarrow>
            (case fit of
               None \<Rightarrow> Inr None
             | Some (slope, intercept, r2) \<Rightarrow>
                 (if slope \<le> 0 then Inr None
                  else if r2 < r2_min then Inr None
                  else Inr (Some (hd ?idxs, last ?idxs, slope, r2)))))"
      unfolding window_fit_def Let_def lnmap using noidx mx dv passes
      by (simp only: if_False sum.case)
    have qs: "qualifying_slope fl t y r2_min frac_k_max K_est ?idxs =
        (case ?lr of
           Inl e \<Rightarrow> None
         | Inr fit \<Rightarrow>
            (case fit of
               None \<Rightarrow> None
             | Some (slope, intercept, r2) \<Rightarrow>
                 if 0 < slope \<and> r2_min \<le> r2 then Some slope else None))"
      unfolding qualifying_slope_def by (subst if_P [OF True]) simp
    show ?thesis
    proof (cases ?lr)
      case (Inl e)
      then have "e = OverflowError" by (rule linear_regression_error)
      with Inl wf show ?thesis by simp
    next
      case (Inr fit)
      show ?thesis
        unfolding wf qs Inr by (auto split: option.splits simp: not_less not_le)
    qed
  qed
qed

lemma map_map_filter: "map f (List.map_filter g xs) = List.map_filter (\<lambda>x. map_option f (g x)) xs"
  by (induction xs) (auto simp: map_filter_simps split: option.splits)

lemma map_filter_map: "List.map_filter g (map h xs) = List.map_filter (\<lambda>x. g (h x)) xs"
  by (induction xs) (auto simp: map_filter_simps split: option.splits)

lemma map_filter_cong_set:
  "(\<And>x. x \<in> set xs \<Longrightarrow> f x = g x) \<Longrightarrow> List.map_filter f xs = List.map_filter g xs"
  by (induction xs) (auto simp: map_filter_simps split: option.splits)

lemma map_filter_mem:
  "w \<in> set (List.map_filter g xs) \<Longrightarrow> \<exists>x \<in> set xs. g x = Some w"
  by (induction xs) (auto simp: map_filter_simps split: option.splits)

lemma map_filter_memI:
  "x \<in> set xs \<Longrightarrow> g x = Some w \<Longrightarrow> w \<in> set (List.map_filter g xs)"
  by (induction xs) (auto simp: map_filter_simps split: option.splits)

lemma map_filter_append:
  "List.map_filter g (xs @ ys) = List.map_filter g xs @ List.map_filter g ys"
  by (induction xs) (auto simp: map_filter_simps split: option.splits)

lemma valid_indices_bound: "\<forall>i \<in> set (valid_indices_of y od_min). i < length y \<and> od_min \<le> y ! i"
  by (simp add: valid_indices_of_def)

lemma valid_indices_complete: "i < length y \<Longrightarrow> od_min \<le> y ! i \<Longrightarrow> i \<in> set (valid_indices_of y od_min)"
  by (simp add: valid_indices_of_def)

lemma valid_indices_sorted: "sorted_wrt (<) (valid_indices_of y od_min)"
  unfolding valid_indices_of_def by (rule sorted_wrt_filter) (simp add: strict_sorted_iff)

lemma py_slice_take_drop: "\<exists>m n. py_slice xs a b = take n (drop m xs)"
  by (auto simp: py_slice_def Let_def)

lemma py_slice_subset: "set (py_slice xs a b) \<subseteq> set xs"
proof -
  obtain m n where "py_slice xs a b = take n (drop m xs)" using py_slice_take_drop by blast
  then show ?thesis
    using set_take_subset [of n "drop m xs"] set_drop_subset [of m xs] by auto
qed

lemma select_log_windows_spec:
  assumes "good_windows \<noteq> []"
  shows "\<exists>lw. select_log_windows fl mu_rel_min mu_rel_max mu_max good_windows = Inr lw \<and>
     set lw \<subseteq> set good_windows \<and>
     (\<forall>w \<in> set good_windows.
        within_band fl mu_rel_min mu_rel_max mu_max (win_slope w) \<longrightarrow> w \<in> set lw)"
proof (cases "[win \<leftarrow> good_windows.
               f_mul fl mu_rel_min mu_max \<le> win_slope win \<and>
               win_slope win \<le> f_mul fl mu_rel_max mu_max] = []")
  case True
  from py_max_by_split [OF assms, of win_slope] obtain w where
    w: "py_max_by win_slope good_windows = Inr w" by blast
  then have "w \<in> set good_windows" by (rule py_max_by_mem)
  moreover have "select_log_windows fl mu_rel_min mu_rel_max mu_max good_windows = Inr [w]"
    using True w by (simp add: select_log_windows_def Let_def)
  moreover have "\<forall>w \<in> set good_windows.
        \<not> within_band fl mu_rel_min mu_rel_max mu_max (win_slope w)"
    using True by (simp add: filter_empty_conv within_band_def)
  ultimately show ?thesis by auto
next
  case False
  then have "select_log_windows fl mu_rel_min mu_rel_max mu_max good_windows =
      Inr [win \<leftarrow> good_windows.
               f_mul fl mu_rel_min mu_max \<le> win_slope win \<and>
               win_slope win \<le> f_mul fl mu_rel_max mu_max]"
    by (simp add: select_log_windows_def Let_def)
  then show ?thesis by (auto simp: within_band_def)
qed

lemma first_max_unique:
  assumes "as @ r # bs = cs @ w # ds"
    and "\<forall>a \<in> set as. key a < key r" "\<forall>b \<in> set bs. key b \<le> key r"
    and "\<forall>a \<in> set cs. key a < key w" "\<forall>b \<in> set ds. key b \<le> (key w :: 'k::linorder)"
  shows "r = w"
proof -
  from assms(1) obtain us where
    "(as = cs @ us \<and> us @ r # bs = w # ds) \<or> (as @ us = cs \<and> r # bs = us @ w # ds)"
    by (auto simp: append_eq_append_conv2)
  then show ?thesis
  proof
    assume a: "as = cs @ us \<and> us @ r # bs = w # ds"
    show ?thesis
    proof (cases us)
      case Nil
      with a show ?thesis by simp
    next
      case (Cons u us')
      with a have "w \<in> set as" "r \<in> set ds" by auto
      with assms(2,5) have "key w < key r" "key r \<le> key w" by auto
      then show ?thesis by simp
    qed
  next
    assume a: "as @ us = cs \<and> r # bs = us @ w # ds"
    show ?thesis
    proof (cases us)
      case Nil
      with a show ?thesis by simp
    next
      case (Cons u us')
      with a have "r \<in> set cs" "w \<in> set bs" by auto
      with assms(3,4) have "key r < key w" "key w \<le> key r" by auto
      then show ?thesis by simp
    qed
  qed
qed

lemma select_log_windows_fallback:
  assumes good: "good_windows = cs @ w # ds"
    and lo: "\<forall>a \<in> set cs. win_slope a < win_slope w"
    and hi: "\<forall>b \<in> set ds. win_slope b \<le> win_slope w"
    and none: "\<forall>g \<in> set good_windows. \<not> within_band fl mu_rel_min mu_rel_max mu_max (win_slope g)"
  shows "select_log_windows fl mu_rel_min mu_rel_max mu_max good_windows = Inr [w]"
proof -
  have ne: "good_windows \<noteq> []" using good by simp
  from py_max_by_split [OF ne, of win_slope] obtain r as bs where
    r: "py_max_by win_slope good_windows = Inr r" and sp: "good_windows = as @ r # bs"
    and rlo: "\<forall>a \<in> set as. win_slope a < win_slope r"
    and rhi: "\<forall>b \<in> set bs. win_slope b \<le> win_slope r"
    by blast
  have "as @ r # bs = cs @ w # ds" using sp good by simp
  from first_max_unique [OF this rlo rhi lo hi] have "r = w" .
  moreover have "[win \<leftarrow> good_windows.
               f_mul fl mu_rel_min mu_max \<le> win_slope win \<and>
               win_slope win \<le> f_mul fl mu_rel_max mu_max] = []"
    using none by (simp add: filter_empty_conv within_band_def)
  ultimately show ?thesis using r by (simp add: select_log_windows_def Let_def)
qed

lemma mark_windows_ok:
  "\<forall>w \<in> set log_windows. win_end w < n \<Longrightarrow> \<exists>flags. mark_windows n log_windows = Inr flags"
  by (auto simp: mark_windows_def not_le)

lemma log_phase_from_windows_mu_max:
  assumes ne: "good_windows \<noteq> []" and rng: "\<forall>w \<in> set good_windows. win_end w < n"
  shows "\<exists>li mm. log_phase_from_windows fl n mu_rel_min mu_rel_max K_est good_windows =
     Inr (li, Some (Max (set (map win_slope good_windows))), mm, Some K_est)"
proof -
  let ?mu = "Max (set (map win_slope good_windows))"
  have mx: "py_max (map win_slope good_windows) = Inr ?mu"
    using ne by (intro py_max_Max) simp
  from select_log_windows_spec [OF ne, of fl mu_rel_min mu_rel_max ?mu] obtain lw where
    lw: "select_log_windows fl mu_rel_min mu_rel_max ?mu good_windows = Inr lw"
      "set lw \<subseteq> set good_windows" by blast
  then have "\<forall>w \<in> set lw. win_end w < n" using rng by auto
  from mark_windows_ok [OF this] obtain flags where mk: "mark_windows n lw = Inr flags" by blast
  show ?thesis
  proof (cases "mask_runs flags = []")
    case True
    then show ?thesis
      using ne mx lw(1) mk by (simp add: log_phase_from_windows_def Let_def)
  next
    case False
    from py_max_by_split [OF False, of length] obtain li where
      "py_max_by length (mask_runs flags) = Inr li" by blast
    then show ?thesis
      using ne mx lw(1) mk False by (simp add: log_phase_from_windows_def Let_def)
  qed
qed

lemma k_est_positive_nonempty:
  "k_est_of fl y valid = Inr (Some K) \<Longrightarrow> valid \<noteq> []"
  by (auto simp: k_est_of_def tail_of_def Let_def split: if_splits)

lemma good_windows_closed:
  fixes y :: "real list" and od_min :: real
  assumes len: "length y \<le> length t" and ws: "1 \<le> window_size" and K: "0 < K_est"
  defines "valid \<equiv> valid_indices_of y od_min"
  assumes enough: "window_size \<le> int (length valid)"
  shows "(scan_windows (window_fit fl t y window_size r2_min frac_k_max K_est valid)
            (window_positions valid window_size) [] = Inl OverflowError \<and>
          (\<exists>idxs \<in> set (windows_of valid window_size).
             linear_regression fl (map (\<lambda>i. t ! i) idxs) (map (\<lambda>i. f_log fl (y ! i)) idxs) =
               Inl OverflowError)) \<or>
         (\<exists>good. scan_windows (window_fit fl t y window_size r2_min frac_k_max K_est valid)
            (window_positions valid window_size) [] = Inr good \<and>
          map win_slope good = qualifying_slopes fl t y window_size r2_min od_min frac_k_max K_est \<and>
          (\<forall>w \<in> set good. win_end w < length t))"
proof -
  let ?fit = "window_fit fl t y window_size r2_min frac_k_max K_est valid"
  let ?ks = "window_positions valid window_size"
  let ?idxs = "\<lambda>k. take (nat window_size) (drop k valid)"
  have ks: "?ks = [0..<length valid + 1 - nat window_size]"
    using window_positions_upt [OF ws enough] .
  have sl: "py_slice valid (int k) (int k + window_size) = ?idxs k" if "k \<in> set ?ks" for k
    using py_slice_window [OF ws window_positions_mem [OF that]] .
  have ne: "?idxs k \<noteq> []" if "k \<in> set ?ks" for k
  proof -
    have "int k + window_size \<le> int (length valid)" using window_positions_mem [OF that] .
    then have "k < length valid" using ws by linarith
    then show ?thesis using ws by simp
  qed
  have rng: "\<forall>i \<in> set (?idxs k). i < length t" for k
  proof
    fix i assume "i \<in> set (?idxs k)"
    then have "i \<in> set valid" by (meson in_set_dropD in_set_takeD)
    then show "i < length t" using valid_indices_bound [of y od_min] len by (auto simp: valid_def)
  qed
  have win: "?idxs k \<in> set (windows_of valid window_size)" if "k \<in> set ?ks" for k
    using that unfolding ks windows_of_def by auto
  have spec: "(?fit k = Inl OverflowError \<and>
        linear_regression fl (map (\<lambda>i. t ! i) (?idxs k)) (map (\<lambda>i. f_log fl (y ! i)) (?idxs k)) =
          Inl OverflowError) \<or>
      (\<exists>r. ?fit k = Inr r \<and>
       map_option win_slope r = qualifying_slope fl t y r2_min frac_k_max K_est (?idxs k) \<and>
       (\<forall>w. r = Some w \<longrightarrow> win_start w = hd (?idxs k) \<and> win_end w = last (?idxs k)))"
    if "k \<in> set ?ks" for k
    using window_fit_spec [OF K, of valid k window_size t fl y r2_min frac_k_max]
      ne [OF that] rng [of k] unfolding sl [OF that] by blast
  show ?thesis
  proof (cases "\<forall>k \<in> set ?ks. \<exists>r. ?fit k = Inr r")
    case True
    from scan_windows_ok [OF this, of "[]"] have
      scan: "scan_windows ?fit ?ks [] = Inr (List.map_filter (\<lambda>k. fit_result (?fit k)) ?ks)"
      by simp
    let ?good = "List.map_filter (\<lambda>k. fit_result (?fit k)) ?ks"
    have spec': "map_option win_slope r = qualifying_slope fl t y r2_min frac_k_max K_est (?idxs k) \<and>
       (\<forall>w. r = Some w \<longrightarrow> win_start w = hd (?idxs k) \<and> win_end w = last (?idxs k))"
      if "k \<in> set ?ks" "?fit k = Inr r" for k r
      using spec [OF that(1)] that(2) by auto
    have "map win_slope ?good = List.map_filter (\<lambda>k. map_option win_slope (fit_result (?fit k))) ?ks"
      by (rule map_map_filter)
    also have "\<dots> = List.map_filter (\<lambda>k. qualifying_slope fl t y r2_min frac_k_max K_est (?idxs k)) ?ks"
    proof (rule map_filter_cong_set)
      fix k assume k: "k \<in> set ?ks"
      with True obtain r where r: "?fit k = Inr r" by blast
      from spec' [OF k r] r show "map_option win_slope (fit_result (?fit k)) =
          qualifying_slope fl t y r2_min frac_k_max K_est (?idxs k)"
        by (simp add: fit_result_def)
    qed
    also have "\<dots> = qualifying_slopes fl t y window_size r2_min od_min frac_k_max K_est"
      unfolding qualifying_slopes_def windows_of_def map_filter_map ks
      by (simp add: valid_def)
    finally have slopes: "map win_slope ?good =
        qualifying_slopes fl t y window_size r2_min od_min frac_k_max K_est" .
    have "win_end w < length t" if "w \<in> set ?good" for w
    proof -
      from map_filter_mem [OF that] obtain k where k: "k \<in> set ?ks" "fit_result (?fit k) = Some w"
        by blast
      from True k(1) obtain r where r: "?fit k = Inr r" by blast
      with k(2) have "r = Some w" by (simp add: fit_result_def)
      with spec' [OF k(1) r] have "win_end w = last (?idxs k)" by simp
      moreover have "last (?idxs k) \<in> set (?idxs k)" using ne [OF k(1)] by simp
      ultimately show ?thesis using rng [of k] by auto
    qed
    with scan slopes show ?thesis by blast
  next
    case False
    with scan_windows_Inr [of ?fit ?ks "[]"] scan_windows_cases [of ?fit ?ks "[]"]
    obtain e k where e: "scan_windows ?fit ?ks [] = Inl e" "k \<in> set ?ks" "?fit k = Inl e"
      by blast
    from spec [OF e(2)] e(3) have "e = OverflowError"
      "linear_regression fl (map (\<lambda>i. t ! i) (?idxs k)) (map (\<lambda>i. f_log fl (y ! i)) (?idxs k)) =
          Inl OverflowError"
      by auto
    with e(1) win [OF e(2)] show ?thesis by blast
  qed
qed

lemma detect_log_phase_unfold:
  assumes "detect_log_phase fl t y window_size r2_min od_min frac_k_max mu_rel_min mu_rel_max =
      Inr (li, mu, mm, Ko)" and "li \<noteq> []"
  shows "\<exists>K good mu_max lw flags.
      scan_windows (window_fit fl t y window_size r2_min frac_k_max K (valid_indices_of y od_min))
        (window_positions (valid_indices_of y od_min) window_size) [] = Inr good \<and>
      select_log_windows fl mu_rel_min mu_rel_max mu_max good = Inr lw \<and>
      mark_windows (length t) lw = Inr flags \<and>
      py_max_by length (mask_runs flags) = Inr li \<and> mu = Some mu_max \<and> Ko = Some K"
  using assms
  by (auto simp: detect_log_phase_def log_phase_from_windows_def Let_def
      split: if_splits sum.splits option.splits) blast+

lemma window_fit_Some:
  assumes "window_fit fl t y window_size r2_min frac_k_max K_est valid k = Inr (Some w)"
  shows "py_slice valid (int k) (int k + window_size) \<noteq> [] \<and>
     win_start w = hd (py_slice valid (int k) (int k + window_size)) \<and>
     win_end w = last (py_slice valid (int k) (int k + window_size))"
  using assms
  by (auto simp: window_fit_def py_max_def Let_def
      split: if_splits sum.splits option.splits list.splits)

lemma sorted_gap:
  "sorted_wrt (<) xs \<Longrightarrow> \<not> consecutive_block xs \<Longrightarrow>
   \<exists>i. hd xs < i \<and> i < last xs \<and> i \<notin> set xs"
proof (induction xs rule: induct_list012)
  case 1
  then show ?case by (simp add: consecutive_block_def)
next
  case (2 x)
  then show ?case by (simp add: consecutive_block_def)
next
  case (3 x z zs)
  show ?case
  proof (cases "z = Suc x")
    case False
    have xz: "x < z" and rest: "\<forall>u \<in> set zs. z < u" using 3(3) by auto
    then have "Suc x < z" using False by simp
    moreover have "z \<le> last (z # zs)"
    proof (cases "zs = []")
      case True
      then show ?thesis by simp
    next
      case ne: False
      then have "last zs \<in> set zs" by simp
      with rest have "z < last zs" by blast
      then show ?thesis using ne by simp
    qed
    moreover have "Suc x \<notin> set (x # z # zs)" using \<open>Suc x < z\<close> rest by auto
    ultimately show ?thesis by (intro exI [of _ "Suc x"]) auto
  next
    case True
    then have "\<not> consecutive_block (z # zs)" using 3(4) by (simp add: consecutive_block_def)
    moreover have "sorted_wrt (<) (z # zs)" using 3(3) by simp
    ultimately obtain i where i: "hd (z # zs) < i" "i < last (z # zs)" "i \<notin> set (z # zs)"
      using 3(2) by blast
    have "x < z" using 3(3) by simp
    with i show ?thesis by (intro exI [of _ i]) auto
  qed
qed

lemma slice_contiguous:
  fixes xs :: "nat list"
  assumes s: "sorted_wrt (<) xs" and ne: "take n (drop m xs) \<noteq> []"
    and i: "i \<in> set xs" "hd (take n (drop m xs)) \<le> i" "i \<le> last (take n (drop m xs))"
  shows "i \<in> set (take n (drop m xs))"
proof -
  let ?ys = "take n (drop m xs)"
  have xs: "xs = take m xs @ ?ys @ drop n (drop m xs)" by (simp only: append_take_drop_id)
  have hd_in: "hd ?ys \<in> set ?ys" by (rule hd_in_set [OF ne])
  have last_in: "last ?ys \<in> set ?ys" by (rule last_in_set [OF ne])
  have s': "sorted_wrt (<) (take m xs @ ?ys @ drop n (drop m xs))" using s xs by simp
  have s1: "\<forall>a \<in> set (take m xs). \<forall>b \<in> set ?ys. a < b"
    using s' by (auto simp: sorted_wrt_append)
  have s2: "\<forall>a \<in> set ?ys. \<forall>b \<in> set (drop n (drop m xs)). a < b"
    using s' by (auto simp: sorted_wrt_append)
  have before: "\<forall>a \<in> set (take m xs). a < hd ?ys"
    using s1 hd_in by blast
  have after: "\<forall>b \<in> set (drop n (drop m xs)). last ?ys < b"
    using s2 last_in by blast
  have "i \<in> set (take m xs) \<or> i \<in> set ?ys \<or> i \<in> set (drop n (drop m xs))"
    using i(1) by (subst (asm) xs) auto
  with before after i(2,3) show ?thesis by fastforce
qed

lemma exact_with_simps:
  "f_add (exact_with lg) = (+)" "f_sub (exact_with lg) = (-)" "f_mul (exact_with lg) = (*)"
  "f_div (exact_with lg) = (/)" "f_sq (exact_with lg) = (\<lambda>x. Some (x * x))"
  "f_sum (exact_with lg) = sum_list" "f_log (exact_with lg) = lg"
  by (simp_all add: exact_with_def)

lemma upt_11: "[0..<11] = [0, 1, 2, 3, 4, 5, 6, 7, 8, 9, 10]"
  by code_simp

lemma growth_valid_eq: "valid_indices_of growth_y 1 = growth_valid"
proof -
  have "length growth_y = 11" by (simp add: growth_y_def)
  then show ?thesis
    unfolding valid_indices_of_def growth_valid_def
    by (simp only: upt_11) (simp add: growth_y_def)
qed

lemma growth_tail: "tail_of growth_valid = [6, 7, 8, 9, 10]"
  unfolding growth_valid_def by code_simp

lemma growth_k: "k_est_of fl growth_y growth_valid = Inr (Some (exp 100))"
  unfolding k_est_of_def growth_tail Let_def
  by (simp add: growth_y_def median_def)

lemma growth_positions: "window_positions growth_valid 2 = [0, 1, 2, 3, 4, 5, 6, 7, 8]"
  unfolding growth_valid_def by code_simp

lemma growth_slices:
  "py_slice growth_valid (int 0) (int 0 + 2) = [0, 2]"
  "py_slice growth_valid (int 1) (int 1 + 2) = [2, 3]"
  "py_slice growth_valid (int 2) (int 2 + 2) = [3, 4]"
  "py_slice growth_valid (int 3) (int 3 + 2) = [4, 5]"
  "py_slice growth_valid (int 4) (int 4 + 2) = [5, 6]"
  "py_slice growth_valid (int 5) (int 5 + 2) = [6, 7]"
  "py_slice growth_valid (int 6) (int 6 + 2) = [7, 8]"
  "py_slice growth_valid (int 7) (int 7 + 2) = [8, 9]"
  "py_slice growth_valid (int 8) (int 8 + 2) = [9, 10]"
  unfolding growth_valid_def by code_simp+

lemma growth_regressions:
  "linear_regression (exact_with lg) [0, 2] [0, 2] = Inr (Some (1, 0, 1))"
  "linear_regression (exact_with lg) [2, 3] [2, 2] = Inr (Some (0, 2, 1))"
  "linear_regression (exact_with lg) [3, 4] [2, 2] = Inr (Some (0, 2, 1))"
  "linear_regression (exact_with lg) [4, 5] [2, 3] = Inr (Some (1, - 2, 1))"
  "linear_regression (exact_with lg) [5, 6] [3, 4] = Inr (Some (1, - 2, 1))"
  "linear_regression (exact_with lg) [6, 7] [4, 5] = Inr (Some (1, - 2, 1))"
  by (simp_all add: linear_regression_def py_div_def py_sum_def regression_sums_def
      exact_with_simps)

lemma growth_fit_good:
  "window_fit exact_arith growth_t growth_y 2 DEFAULT_R2_MIN 1 (exp 100) growth_valid 0 =
     Inr (Some (0, 2, 1, 1))"
  "window_fit exact_arith growth_t growth_y 2 DEFAULT_R2_MIN 1 (exp 100) growth_valid 3 =
     Inr (Some (4, 5, 1, 1))"
  "window_fit exact_arith growth_t growth_y 2 DEFAULT_R2_MIN 1 (exp 100) growth_valid 4 =
     Inr (Some (5, 6, 1, 1))"
  "window_fit exact_arith growth_t growth_y 2 DEFAULT_R2_MIN 1 (exp 100) growth_valid 5 =
     Inr (Some (6, 7, 1, 1))"
  unfolding window_fit_def growth_slices Let_def exact_arith_def
  by (simp_all add: growth_t_def growth_y_def py_max_def py_div_def exact_with_simps
      pos_le_divide_eq growth_regressions DEFAULT_R2_MIN_def)

lemma growth_fit_skip:
  "window_fit exact_arith growth_t growth_y 2 DEFAULT_R2_MIN 1 (exp 100) growth_valid 1 = Inr None"
  "window_fit exact_arith growth_t growth_y 2 DEFAULT_R2_MIN 1 (exp 100) growth_valid 2 = Inr None"
  "window_fit exact_arith growth_t growth_y 2 DEFAULT_R2_MIN 1 (exp 100) growth_valid 6 = Inr None"
  "window_fit exact_arith growth_t growth_y 2 DEFAULT_R2_MIN 1 (exp 100) growth_valid 7 = Inr None"
  "window_fit exact_arith growth_t growth_y 2 DEFAULT_R2_MIN 1 (exp 100) growth_valid 8 = Inr None"
  unfolding window_fit_def growth_slices Let_def exact_arith_def
  by (simp_all add: growth_t_def growth_y_def py_max_def py_div_def exact_with_simps
      pos_le_divide_eq growth_regressions DEFAULT_R2_MIN_def)

lemma growth_scan:
  "scan_windows (window_fit exact_arith growth_t growth_y 2 DEFAULT_R2_MIN 1 (exp 100) growth_valid)
     [0, 1, 2, 3, 4, 5, 6, 7, 8] [] = Inr growth_windows"
  unfolding scan_windows.simps growth_fit_good growth_fit_skip sum.case option.case
    growth_windows_def
  by simp

lemma growth_from_windows_any:
  "log_phase_from_windows (exact_with lg) 11 DEFAULT_MU_REL_MIN DEFAULT_MU_REL_MAX K growth_windows =
     Inr ([4, 5, 6, 7], Some 1, Some 1, Some K)"
  unfolding growth_windows_def by code_simp

lemma growth_from_windows:
  "log_phase_from_windows exact_arith 11 DEFAULT_MU_REL_MIN DEFAULT_MU_REL_MAX K growth_windows =
     Inr ([4, 5, 6, 7], Some 1, Some 1, Some K)"
  unfolding exact_arith_def by (rule growth_from_windows_any)

lemma growth_result:
  "detect_log_phase exact_arith growth_t growth_y 2 DEFAULT_R2_MIN 1 1
     DEFAULT_MU_REL_MIN DEFAULT_MU_REL_MAX =
     Inr ([4, 5, 6, 7], Some 1, Some 1, Some (exp 100))"
proof -
  have n: "length growth_t = 11" by (simp add: growth_t_def)
  have v: "length growth_valid = 10" by (simp add: growth_valid_def)
  show ?thesis
    unfolding detect_log_phase_def Let_def growth_valid_eq growth_k growth_positions growth_scan
      n v growth_from_windows sum.case option.case
    by simp
qed

lemma k_est_of_Inr: "\<exists>ko. k_est_of fl y valid = Inr ko"
proof (cases "map (\<lambda>i. y ! i) (tail_of valid) = []")
  case True
  then show ?thesis by (simp add: k_est_of_def Let_def)
next
  case False
  from median_nonempty [OF False] obtain m where
    "median fl (map (\<lambda>i. y ! i) (tail_of valid)) = Inr m" by blast
  with False show ?thesis by (simp add: k_est_of_def Let_def)
qed

lemma window_fit_errors:
  assumes "\<forall>i \<in> set valid. i < length t" and "K_est \<noteq> 0"
    and "window_fit fl t y window_size r2_min frac_k_max K_est valid k = Inl e"
  shows "e = ValueError \<or> e = OverflowError"
proof -
  let ?idxs = "py_slice valid (int k) (int k + window_size)"
  have noidx: "\<not> (\<exists>i \<in> set ?idxs. length t \<le> i)"
    using assms(1) py_slice_subset [of valid "int k" "int k + window_size"] by fastforce
  show ?thesis
  proof (cases "?idxs = []")
    case True
    then show ?thesis using assms(3) noidx
      by (simp add: window_fit_def Let_def py_max_def)
  next
    case False
    then have "py_max (map (\<lambda>i. y ! i) ?idxs) = Inr (Max (set (map (\<lambda>i. y ! i) ?idxs)))"
      by (intro py_max_Max) simp
    then show ?thesis using assms(2,3) noidx
      by (auto simp: window_fit_def Let_def py_div_def
          split: if_splits option.splits sum.splits dest: linear_regression_error)
  qed
qed

lemma window_fit_empty:
  "py_slice valid (int k) (int k + window_size) = [] \<Longrightarrow>
   window_fit fl t y window_size r2_min frac_k_max K_est valid k = Inl ValueError"
  by (simp add: window_fit_def Let_def py_max_def)

lemma window_fit_at_end:
  "window_fit fl t y window_size r2_min frac_k_max K_est valid (length valid) = Inl ValueError"
  by (rule window_fit_empty) (simp add: py_slice_def Let_def)

lemma window_fit_zero_size:
  "window_fit fl t y 0 r2_min frac_k_max K_est valid k = Inl ValueError"
  by (rule window_fit_empty) (simp add: py_slice_def Let_def)

lemma nonpositive_window_size:
  assumes len: "length t = length y" and ws: "window_size \<le> 0"
  shows "detect_log_phase fl t y window_size r2_min od_min frac_k_max mu_rel_min mu_rel_max =
       Inr ([], None, None, None) \<or>
     detect_log_phase fl t y window_size r2_min od_min frac_k_max mu_rel_min mu_rel_max =
       Inl ValueError \<or>
     (window_size < 0 \<and>
      detect_log_phase fl t y window_size r2_min od_min frac_k_max mu_rel_min mu_rel_max =
        Inl OverflowError)"
proof -
  let ?valid = "valid_indices_of y od_min"
  obtain ko where ko: "k_est_of fl y ?valid = Inr ko" using k_est_of_Inr by blast
  show ?thesis
  proof (cases "length t = 0 \<or> int (length ?valid) < window_size + 1 \<or> ko = None \<or>
      (\<exists>K. ko = Some K \<and> K \<le> 0)")
    case True
    then show ?thesis using ko
      by (auto simp: detect_log_phase_def Let_def)
  next
    case False
    then obtain K where K: "ko = Some K" "\<not> K \<le> 0" by (cases ko) auto
    let ?fit = "window_fit fl t y window_size r2_min frac_k_max K ?valid"
    let ?ks = "window_positions ?valid window_size"
    have rng: "\<forall>i \<in> set ?valid. i < length t"
      using valid_indices_bound [of y od_min] len by simp
    have K0: "K \<noteq> 0" using K(2) by simp
    have "length ?valid \<in> set ?ks" using ws by (auto simp: window_positions_def)
    then have "\<not> (\<forall>k \<in> set ?ks. \<exists>r. ?fit k = Inr r)"
      using window_fit_at_end [of fl t y window_size r2_min frac_k_max K ?valid] by force
    with scan_windows_Inr [of ?fit ?ks "[]"] scan_windows_cases [of ?fit ?ks "[]"]
    obtain e k where e: "scan_windows ?fit ?ks [] = Inl e" "k \<in> set ?ks" "?fit k = Inl e"
      by blast
    have dlp: "detect_log_phase fl t y window_size r2_min od_min frac_k_max mu_rel_min mu_rel_max =
        Inl e"
      using False ko K e(1) by (simp add: detect_log_phase_def Let_def)
    from window_fit_errors [OF rng K0 e(3)] have e12: "e = ValueError \<or> e = OverflowError" .
    show ?thesis
    proof (cases "window_size = 0")
      case True
      with e(3) window_fit_zero_size [of fl t y r2_min frac_k_max K ?valid k]
      have "e = ValueError" by simp
      with dlp show ?thesis by simp
    next
      case False
      with ws have "window_size < 0" by simp
      with dlp e12 show ?thesis by auto
    qed
  qed
qed

lemma upt_6: "[0..<6] = [0, 1, 2, 3, 4, 5]"
  by code_simp

lemma gap_valid_eq: "valid_indices_of gap_y 1 = gap_valid"
proof -
  have "length gap_y = 6" by (simp add: gap_y_def)
  then show ?thesis
    unfolding valid_indices_of_def gap_valid_def
    by (simp only: upt_6) (simp add: gap_y_def)
qed

lemma gap_tail: "tail_of gap_valid = [0, 2, 3, 4, 5]"
  unfolding gap_valid_def by code_simp

lemma gap_k: "k_est_of fl gap_y gap_valid = Inr (Some (exp 100))"
  unfolding k_est_of_def gap_tail Let_def
  by (simp add: gap_y_def median_def)

lemma gap_positions: "window_positions gap_valid 2 = [0, 1, 2, 3]"
  unfolding gap_valid_def by code_simp

lemma gap_slices:
  "py_slice gap_valid (int 0) (int 0 + 2) = [0, 2]"
  "py_slice gap_valid (int 1) (int 1 + 2) = [2, 3]"
  "py_slice gap_valid (int 2) (int 2 + 2) = [3, 4]"
  "py_slice gap_valid (int 3) (int 3 + 2) = [4, 5]"
  unfolding gap_valid_def by code_simp+

lemma gap_fit_good:
  "window_fit exact_arith gap_t gap_y 2 DEFAULT_R2_MIN 1 (exp 100) gap_valid 0 =
     Inr (Some (0, 2, 1, 1))"
  unfolding window_fit_def gap_slices Let_def exact_arith_def
  by (simp add: gap_t_def gap_y_def py_max_def py_div_def exact_with_simps pos_le_divide_eq
      growth_regressions DEFAULT_R2_MIN_def)

lemma gap_fit_skip:
  "window_fit exact_arith gap_t gap_y 2 DEFAULT_R2_MIN 1 (exp 100) gap_valid 1 = Inr None"
  "window_fit exact_arith gap_t gap_y 2 DEFAULT_R2_MIN 1 (exp 100) gap_valid 2 = Inr None"
  "window_fit exact_arith gap_t gap_y 2 DEFAULT_R2_MIN 1 (exp 100) gap_valid 3 = Inr None"
  unfolding window_fit_def gap_slices Let_def exact_arith_def
  by (simp_all add: gap_t_def gap_y_def py_max_def py_div_def exact_with_simps pos_le_divide_eq)

lemma gap_scan:
  "scan_windows (window_fit exact_arith gap_t gap_y 2 DEFAULT_R2_MIN 1 (exp 100) gap_valid)
     [0, 1, 2, 3] [] = Inr [(0, 2, 1, 1)]"
  unfolding scan_windows.simps gap_fit_good gap_fit_skip sum.case option.case
  by simp

lemma gap_from_windows_any:
  "log_phase_from_windows (exact_with lg) 6 DEFAULT_MU_REL_MIN DEFAULT_MU_REL_MAX K [(0, 2, 1, 1)] =
     Inr ([0, 1, 2], Some 1, Some 1, Some K)"
  "log_phase_from_windows (exact_with lg) 6 2 3 K [(0, 2, 1, 1)] =
     Inr ([0, 1, 2], Some 1, Some 1, Some K)"
  by code_simp+

lemma gap_result:
  "detect_log_phase exact_arith gap_t gap_y 2 DEFAULT_R2_MIN 1 1 DEFAULT_MU_REL_MIN DEFAULT_MU_REL_MAX =
     Inr ([0, 1, 2], Some 1, Some 1, Some (exp 100))"
  "detect_log_phase exact_arith gap_t gap_y 2 DEFAULT_R2_MIN 1 1 2 3 =
     Inr ([0, 1, 2], Some 1, Some 1, Some (exp 100))"
proof -
  have n: "length gap_t = 6" by (simp add: gap_t_def)
  have v: "length gap_valid = 5" by (simp add: gap_valid_def)
  have w: "log_phase_from_windows exact_arith 6 DEFAULT_MU_REL_MIN DEFAULT_MU_REL_MAX K
        [(0, 2, 1, 1)] = Inr ([0, 1, 2], Some 1, Some 1, Some K)"
      "log_phase_from_windows exact_arith 6 2 3 K [(0, 2, 1, 1)] =
        Inr ([0, 1, 2], Some 1, Some 1, Some K)" for K
    unfolding exact_arith_def by (rule gap_from_windows_any)+
  show "detect_log_phase exact_arith gap_t gap_y 2 DEFAULT_R2_MIN 1 1
      DEFAULT_MU_REL_MIN DEFAULT_MU_REL_MAX = Inr ([0, 1, 2], Some 1, Some 1, Some (exp 100))"
    unfolding detect_log_phase_def Let_def gap_valid_eq gap_k gap_positions gap_scan
      n v w sum.case option.case
    by simp
  show "detect_log_phase exact_arith gap_t gap_y 2 DEFAULT_R2_MIN 1 1 2 3 =
      Inr ([0, 1, 2], Some 1, Some 1, Some (exp 100))"
    unfolding detect_log_phase_def Let_def gap_valid_eq gap_k gap_positions gap_scan
      n v w sum.case option.case
    by simp
qed

section \<open>Results of the two engines\<close>

text \<open>
  Claim C1, as the code has it. The log indices returned by \<open>detect_log_phase\<close> always
  form a single block of strictly increasing, consecutive indices. The baseline indices
  returned by \<open>find_baseline_points\<close> are always strictly increasing; they form a single
  block of consecutive indices whenever some run of candidates reaches
  \<open>min_consecutive\<close>. Otherwise they are all the candidates, which need not be
  consecutive.
\<close>

theorem run_contiguity:
  "(find_baseline_points fl t y t_pre bin_width tol min_consecutive = Some (Inr (bi, lvl, ex)) \<longrightarrow>
      sorted_wrt (<) bi \<and>
      (consecutive_block bi \<or>
       (\<exists>level. lvl = Some level \<and> bi = candidates_of fl y level tol (pre_indices_of t t_pre) \<and>
          (\<forall>r \<in> set (candidate_runs bi). int (length r) < min_consecutive)))) \<and>
   (detect_log_phase fl t' y' window_size r2_min od_min frac_k_max mu_rel_min mu_rel_max =
      Inr (li, mu_max, mu_mean, K_est) \<longrightarrow>
      consecutive_block li \<and> sorted_wrt (<) li)"
  using baseline_shape [of fl t y t_pre bin_width tol min_consecutive bi lvl ex]
    detect_log_phase_block [of fl t' y' window_size r2_min od_min frac_k_max mu_rel_min mu_rel_max
      li mu_max mu_mean K_est]
    consecutive_block_sorted [of li]
  by blast

theorem run_contiguity_witness:
  "sorted_wrt (<) [0::nat] \<and>
   (consecutive_block [0] \<or>
     (\<exists>level. Some (5 / 100) = Some level \<and>
        [0] = candidates_of exact_arith spike_y level TOL (pre_indices_of spike_t T_PRE) \<and>
        (\<forall>r \<in> set (candidate_runs [0]). int (length r) < 1))) \<and>
   consecutive_block [4, 5, 6, 7] \<and> sorted_wrt (<) [4::nat, 5, 6, 7]"
  using spike_result growth_result
    run_contiguity [of exact_arith spike_t spike_y T_PRE BIN_WIDTH TOL 1 "[0]" "Some (5 / 100)" "[3]"
      growth_t growth_y 2 DEFAULT_R2_MIN 1 1 DEFAULT_MU_REL_MIN DEFAULT_MU_REL_MAX
      "[4, 5, 6, 7]" "Some 1" "Some 1" "Some (exp 100)"]
  by blast

text \<open>
  The claim as written fails in the fallback case it names: with the default options the
  readings \<open>0, 1, 0\<close> give the candidates 0 and 2, no run of three, and the baseline
  indices 0 and 2.
\<close>

lemma fallback_result_any:
  "find_baseline_points (exact_with lg) [0, 1, 2] [0, 1, 0] T_PRE BIN_WIDTH TOL MIN_CONSECUTIVE =
     Some (Inr ([0, 2], Some 0, [2]))"
  by code_simp

theorem baseline_fallback_counterexample:
  "find_baseline_points exact_arith [0, 1, 2] [0, 1, 0] T_PRE BIN_WIDTH TOL MIN_CONSECUTIVE =
     Some (Inr ([0, 2], Some 0, [2])) \<and>
   \<not> consecutive_block [0, 2]"
  using fallback_result_any [of ln] by (simp add: consecutive_block_def exact_arith_def)

text \<open>
  Claim C7, as the code has it. For a series of equally many times and values, a window
  size of at least one, at least \<open>window_size + 1\<close> valid readings and a positive
  plateau estimate \<open>K_est\<close>: either the regression of some window ends in
  \<^verbatim>\<open>OverflowError\<close> and so does the call, or the following holds. If no window qualifies,
  \<open>detect_log_phase\<close> returns no log indices, unknown \<open>mu_max\<close> and \<open>mu_mean\<close>, and
  \<open>K_est\<close>; otherwise it returns \<open>K_est\<close> and as \<open>mu_max\<close> the largest slope among the
  qualifying windows. The windows and what makes one qualify are taken from the words of
  the specification (\<open>windows_of\<close>, \<open>qualifying_slope\<close>), not from the loop of the code,
  with the plateau test on the quotient of the largest value by \<open>K_est\<close> as the machine
  computes it.
\<close>

theorem mu_max_is_max_qualifying_slope:
  assumes len: "length t = length y" and ws: "1 \<le> window_size"
    and enough: "window_size + 1 \<le> int (length (valid_indices_of y od_min))"
    and kest: "k_est_of fl y (valid_indices_of y od_min) = Inr (Some K_est)"
    and K: "0 < K_est"
  shows "((\<exists>idxs \<in> set (windows_of (valid_indices_of y od_min) window_size).
             linear_regression fl (map (\<lambda>i. t ! i) idxs) (map (\<lambda>i. f_log fl (y ! i)) idxs) =
               Inl OverflowError) \<and>
          detect_log_phase fl t y window_size r2_min od_min frac_k_max mu_rel_min mu_rel_max =
            Inl OverflowError) \<or>
     (\<exists>li mm.
       detect_log_phase fl t y window_size r2_min od_min frac_k_max mu_rel_min mu_rel_max =
         (if qualifying_slopes fl t y window_size r2_min od_min frac_k_max K_est = []
          then Inr ([], None, None, Some K_est)
          else Inr (li, Some (Max (set (qualifying_slopes fl t y window_size r2_min od_min
                                          frac_k_max K_est))), mm, Some K_est)))"
proof -
  let ?valid = "valid_indices_of y od_min"
  let ?scan = "scan_windows (window_fit fl t y window_size r2_min frac_k_max K_est ?valid)
            (window_positions ?valid window_size) []"
  have len': "length y \<le> length t" using len by simp
  have en': "window_size \<le> int (length ?valid)" using enough by simp
  have "?valid \<noteq> []" using k_est_positive_nonempty [OF kest] .
  then have "length y \<noteq> 0" by (auto simp: valid_indices_of_def)
  then have n0: "length t \<noteq> 0" using len by simp
  from good_windows_closed [OF len' ws K en', of fl r2_min frac_k_max]
  consider
    (overflow) "?scan = Inl OverflowError"
      "\<exists>idxs \<in> set (windows_of ?valid window_size).
         linear_regression fl (map (\<lambda>i. t ! i) idxs) (map (\<lambda>i. f_log fl (y ! i)) idxs) =
           Inl OverflowError"
  | (good) good where "?scan = Inr good"
      "map win_slope good = qualifying_slopes fl t y window_size r2_min od_min frac_k_max K_est"
      "\<forall>w \<in> set good. win_end w < length t"
    by blast
  then show ?thesis
  proof cases
    case overflow
    have "detect_log_phase fl t y window_size r2_min od_min frac_k_max mu_rel_min mu_rel_max =
        Inl OverflowError"
      using n0 enough kest K overflow(1) by (simp add: detect_log_phase_def Let_def)
    with overflow(2) show ?thesis by blast
  next
    case good
    have dlp: "detect_log_phase fl t y window_size r2_min od_min frac_k_max mu_rel_min mu_rel_max =
        log_phase_from_windows fl (length t) mu_rel_min mu_rel_max K_est good"
      using n0 enough kest K good(1) by (simp add: detect_log_phase_def Let_def)
    show ?thesis
    proof (cases "good = []")
      case True
      then have "qualifying_slopes fl t y window_size r2_min od_min frac_k_max K_est = []"
        using good(2) by simp
      then show ?thesis unfolding dlp using True by (simp add: log_phase_from_windows_def)
    next
      case False
      then have "qualifying_slopes fl t y window_size r2_min od_min frac_k_max K_est \<noteq> []"
        using good(2) by auto
      moreover from log_phase_from_windows_mu_max [OF False good(3), of fl mu_rel_min mu_rel_max K_est]
      obtain li mm where "log_phase_from_windows fl (length t) mu_rel_min mu_rel_max K_est good =
          Inr (li, Some (Max (set (map win_slope good))), mm, Some K_est)" by blast
      ultimately show ?thesis unfolding dlp good(2) by auto
    qed
  qed
qed

theorem mu_max_is_max_qualifying_slope_witness:
  "detect_log_phase exact_arith growth_t growth_y 2 DEFAULT_R2_MIN 1 1
     DEFAULT_MU_REL_MIN DEFAULT_MU_REL_MAX =
     Inr ([4, 5, 6, 7], Some 1, Some 1, Some (exp 100)) \<and>
   qualifying_slopes exact_arith growth_t growth_y 2 DEFAULT_R2_MIN 1 1 (exp 100) \<noteq> [] \<and>
   Max (set (qualifying_slopes exact_arith growth_t growth_y 2 DEFAULT_R2_MIN 1 1 (exp 100))) = 1"
proof -
  have h1: "length growth_t = length growth_y" by (simp add: growth_t_def growth_y_def)
  have h2: "(1::int) \<le> 2" by simp
  have h3: "2 + 1 \<le> int (length (valid_indices_of growth_y 1))"
    unfolding growth_valid_eq by (simp add: growth_valid_def)
  have h4: "k_est_of exact_arith growth_y (valid_indices_of growth_y 1) = Inr (Some (exp 100))"
    unfolding growth_valid_eq by (rule growth_k)
  have h5: "(0::real) < exp 100" by simp
  from mu_max_is_max_qualifying_slope [OF h1 h2 h3 h4 h5, of DEFAULT_R2_MIN 1
      DEFAULT_MU_REL_MIN DEFAULT_MU_REL_MAX]
  obtain li mm where "Inr ([4, 5, 6, 7], Some 1, Some 1, Some (exp 100)) =
      (if qualifying_slopes exact_arith growth_t growth_y 2 DEFAULT_R2_MIN 1 1 (exp 100) = []
       then Inr ([], None, None, Some (exp 100))
       else (Inr (li, Some (Max (set (qualifying_slopes exact_arith growth_t growth_y 2
                                        DEFAULT_R2_MIN 1 1 (exp 100)))), mm, Some (exp 100))
             :: py_error + log_phase_result))"
    unfolding growth_result by auto
  then show ?thesis using growth_result by (auto split: if_splits)
qed

text \<open>
  The claim as written fails outside these conditions: with three valid readings and
  the default window of five no window qualifies, and the plateau estimate is unknown,
  not populated; with a window size of zero the estimate exists, no window qualifies,
  and the call ends in the \<^verbatim>\<open>ValueError\<close> of \<^verbatim>\<open>max()\<close> on an empty window.
\<close>

lemma zero_window_size_result:
  "detect_log_phase fl [0, 1, 2] [1, 2, 3] 0 DEFAULT_R2_MIN DEFAULT_OD_MIN DEFAULT_FRAC_K_MAX
    DEFAULT_MU_REL_MIN DEFAULT_MU_REL_MAX = Inl ValueError"
proof -
  have v: "valid_indices_of [1, 2, 3] DEFAULT_OD_MIN = [0, 1, 2]" by code_simp
  have k: "k_est_of fl [1, 2, 3] [0, 1, 2] = Inr (Some 2)"
    by (simp add: k_est_of_def tail_of_def median_def)
  have p: "window_positions [0, 1, 2] 0 = [0, 1, 2, 3]" by code_simp
  have f: "window_fit fl [0, 1, 2] [1, 2, 3] 0 DEFAULT_R2_MIN DEFAULT_FRAC_K_MAX 2 [0, 1, 2] 0 =
      Inl ValueError"
    by (rule window_fit_zero_size)
  show ?thesis
    unfolding detect_log_phase_def Let_def v k p scan_windows.simps f sum.case option.case
    by simp
qed

lemma short_series_result:
  "detect_log_phase fl [0, 1, 2] [1, 2, 3] DEFAULT_WINDOW_SIZE DEFAULT_R2_MIN DEFAULT_OD_MIN
     DEFAULT_FRAC_K_MAX DEFAULT_MU_REL_MIN DEFAULT_MU_REL_MAX = Inr ([], None, None, None)"
proof -
  have "int (length (valid_indices_of [1, 2, 3] DEFAULT_OD_MIN)) < DEFAULT_WINDOW_SIZE + 1"
    by code_simp
  then show ?thesis by (intro detect_log_phase_few_valid) simp
qed

theorem no_window_unknown_plateau_counterexample:
  "detect_log_phase exact_arith [0, 1, 2] [1, 2, 3] DEFAULT_WINDOW_SIZE DEFAULT_R2_MIN DEFAULT_OD_MIN
     DEFAULT_FRAC_K_MAX DEFAULT_MU_REL_MIN DEFAULT_MU_REL_MAX = Inr ([], None, None, None) \<and>
   detect_log_phase exact_arith [0, 1, 2] [1, 2, 3] 0 DEFAULT_R2_MIN DEFAULT_OD_MIN
     DEFAULT_FRAC_K_MAX DEFAULT_MU_REL_MIN DEFAULT_MU_REL_MAX = Inl ValueError"
  using short_series_result zero_window_size_result by simp

text \<open>
  Claim C8, as the code has it. Neither engine checks its configuration. For a series of
  equally many times and values: \<open>find_baseline_points\<close> on a non-empty pre-window of at
  least \<open>min_consecutive\<close> points with a bin width that is not zero returns an ordinary
  result when the quotients of the binning step stay finite, whatever the tolerance is
  (with a negative tolerance: the baseline level, no baseline indices and no excluded
  indices), and ends in the \<^verbatim>\<open>OverflowError\<close> of \<^verbatim>\<open>int()\<close> when one of them does not;
  with a zero bin width it ends in the division by zero of the binning step;
  \<open>detect_log_phase\<close> with a window size of zero or less returns the empty result or
  ends in the \<^verbatim>\<open>ValueError\<close> of \<^verbatim>\<open>max()\<close> on an empty window or, for a negative window
  size only, in the \<^verbatim>\<open>OverflowError\<close> of a regression. No configuration error is raised
  at the call boundary.
\<close>

theorem configuration_is_not_checked:
  assumes "length t = length y"
  shows "(pre_indices_of t t_pre \<noteq> [] \<and> min_consecutive \<le> int (length (pre_indices_of t t_pre)) \<longrightarrow>
      (bin_width \<noteq> 0 \<longrightarrow>
        (if \<forall>i \<in> set (pre_indices_of t t_pre).
               \<bar>bin_quotient fl y bin_width (pre_indices_of t t_pre) i\<bar> < FLOAT_INF
         then \<exists>bi level ex.
                find_baseline_points fl t y t_pre bin_width tol min_consecutive =
                  Some (Inr (bi, Some level, ex)) \<and>
                (tol < 0 \<longrightarrow> bi = [] \<and> ex = [])
         else find_baseline_points fl t y t_pre bin_width tol min_consecutive =
                Some (Inl OverflowError))) \<and>
      find_baseline_points fl t y t_pre 0 tol min_consecutive = Some (Inl ZeroDivisionError)) \<and>
    (window_size \<le> 0 \<longrightarrow>
      detect_log_phase fl t y window_size r2_min od_min frac_k_max mu_rel_min mu_rel_max =
        Inr ([], None, None, None) \<or>
      detect_log_phase fl t y window_size r2_min od_min frac_k_max mu_rel_min mu_rel_max =
        Inl ValueError \<or>
      (window_size < 0 \<and>
       detect_log_phase fl t y window_size r2_min od_min frac_k_max mu_rel_min mu_rel_max =
         Inl OverflowError))"
proof (intro conjI impI)
  assume a: "pre_indices_of t t_pre \<noteq> [] \<and>
    min_consecutive \<le> int (length (pre_indices_of t t_pre))"
  then show "find_baseline_points fl t y t_pre 0 tol min_consecutive = Some (Inl ZeroDivisionError)"
    using zero_bin_width assms by blast
  assume bw: "bin_width \<noteq> 0"
  show "if \<forall>i \<in> set (pre_indices_of t t_pre).
               \<bar>bin_quotient fl y bin_width (pre_indices_of t t_pre) i\<bar> < FLOAT_INF
         then \<exists>bi level ex.
                find_baseline_points fl t y t_pre bin_width tol min_consecutive =
                  Some (Inr (bi, Some level, ex)) \<and>
                (tol < 0 \<longrightarrow> bi = [] \<and> ex = [])
         else find_baseline_points fl t y t_pre bin_width tol min_consecutive =
                Some (Inl OverflowError)"
  proof (cases "\<forall>i \<in> set (pre_indices_of t t_pre).
               \<bar>bin_quotient fl y bin_width (pre_indices_of t t_pre) i\<bar> < FLOAT_INF")
    case True
    from a bw True find_baseline_points_level [of t t_pre min_consecutive bin_width y fl tol] assms
    obtain bi ex level where
      r: "find_baseline_points fl t y t_pre bin_width tol min_consecutive =
            Some (Inr (bi, Some level, ex))"
      and c: "candidates_of fl y level tol (pre_indices_of t t_pre) = [] \<longrightarrow> bi = [] \<and> ex = []"
      by blast
    have "tol < 0 \<longrightarrow> bi = [] \<and> ex = []"
      using c no_candidates_negative_tol by blast
    with r True show ?thesis by auto
  next
    case False
    from a bw False find_baseline_points_overflow [of t t_pre min_consecutive bin_width y fl tol]
      assms
    show ?thesis by auto
  qed
next
  assume "window_size \<le> 0"
  then show "detect_log_phase fl t y window_size r2_min od_min frac_k_max mu_rel_min mu_rel_max =
        Inr ([], None, None, None) \<or>
      detect_log_phase fl t y window_size r2_min od_min frac_k_max mu_rel_min mu_rel_max =
        Inl ValueError \<or>
      (window_size < 0 \<and>
       detect_log_phase fl t y window_size r2_min od_min frac_k_max mu_rel_min mu_rel_max =
         Inl OverflowError)"
    using nonpositive_window_size assms by blast
qed

lemma unchecked_results_any:
  "find_baseline_points (exact_with lg) [0, 1, 2] [0, 0, 0] T_PRE BIN_WIDTH (- 1) MIN_CONSECUTIVE =
     Some (Inr ([], Some 0, []))"
  "find_baseline_points (exact_with lg) [0, 1, 2] [0, 0, 0] T_PRE (- BIN_WIDTH) TOL MIN_CONSECUTIVE =
     Some (Inr ([0, 1, 2], Some 0, []))"
  by code_simp+

lemma unchecked_results:
  "find_baseline_points exact_arith [0, 1, 2] [0, 0, 0] T_PRE BIN_WIDTH (- 1) MIN_CONSECUTIVE =
     Some (Inr ([], Some 0, []))"
  "find_baseline_points exact_arith [0, 1, 2] [0, 0, 0] T_PRE (- BIN_WIDTH) TOL MIN_CONSECUTIVE =
     Some (Inr ([0, 1, 2], Some 0, []))"
  unfolding exact_arith_def by (rule unchecked_results_any)+

lemma zero_window_no_valid:
  "detect_log_phase fl [0, 1] [0, 0] 0 DEFAULT_R2_MIN DEFAULT_OD_MIN DEFAULT_FRAC_K_MAX
     DEFAULT_MU_REL_MIN DEFAULT_MU_REL_MAX = Inr ([], None, None, None)"
  by (simp add: detect_log_phase_def valid_indices_of_def DEFAULT_OD_MIN_def)

theorem configuration_is_not_checked_witness:
  "find_baseline_points exact_arith [0, 1, 2] [0, 0, 0] T_PRE BIN_WIDTH (- 1) MIN_CONSECUTIVE =
     Some (Inr ([], Some 0, [])) \<and>
   find_baseline_points exact_arith [0, 1, 2] [0, 0, 0] T_PRE 0 (- 1) MIN_CONSECUTIVE =
     Some (Inl ZeroDivisionError) \<and>
   (detect_log_phase exact_arith [0, 1, 2] [0, 0, 0] 0 DEFAULT_R2_MIN DEFAULT_OD_MIN
      DEFAULT_FRAC_K_MAX DEFAULT_MU_REL_MIN DEFAULT_MU_REL_MAX = Inr ([], None, None, None) \<or>
    detect_log_phase exact_arith [0, 1, 2] [0, 0, 0] 0 DEFAULT_R2_MIN DEFAULT_OD_MIN
      DEFAULT_FRAC_K_MAX DEFAULT_MU_REL_MIN DEFAULT_MU_REL_MAX = Inl ValueError)"
proof -
  have h1: "length [0, 1, 2::real] = length [0, 0, 0::real]" by simp
  have pre: "pre_indices_of [0, 1, 2] T_PRE = [0, 1, 2]" by code_simp
  have h2: "pre_indices_of [0, 1, 2] T_PRE \<noteq> [] \<and>
      MIN_CONSECUTIVE \<le> int (length (pre_indices_of [0, 1, 2] T_PRE))"
    unfolding pre by (simp add: MIN_CONSECUTIVE_def)
  have h3: "BIN_WIDTH \<noteq> 0" by (simp add: BIN_WIDTH_def)
  have h4: "(- 1 :: real) < 0" "(0::int) \<le> 0" "\<not> (0::int) < 0" by simp_all
  have h5: "\<forall>i \<in> set (pre_indices_of [0, 1, 2] T_PRE).
      \<bar>bin_quotient exact_arith [0, 0, 0] BIN_WIDTH (pre_indices_of [0, 1, 2] T_PRE) i\<bar> < FLOAT_INF"
    unfolding pre
    by (simp add: bin_quotient_def pre_min_def exact_arith_def exact_with_simps FLOAT_INF_def)
  show ?thesis
    using h2 h3 h4 h5 unchecked_results(1)
      configuration_is_not_checked [OF h1, of T_PRE MIN_CONSECUTIVE BIN_WIDTH exact_arith "- 1" 0
        DEFAULT_R2_MIN DEFAULT_OD_MIN DEFAULT_FRAC_K_MAX DEFAULT_MU_REL_MIN DEFAULT_MU_REL_MAX]
    by auto
qed

text \<open>
  The claim as written fails: a negative tolerance and a negative bin width each give an
  ordinary result, and a window size of zero on a series without valid readings gives the
  insufficient-data result.
\<close>

theorem invalid_configuration_accepted_counterexample:
  "find_baseline_points exact_arith [0, 1, 2] [0, 0, 0] T_PRE BIN_WIDTH (- 1) MIN_CONSECUTIVE =
     Some (Inr ([], Some 0, [])) \<and>
   find_baseline_points exact_arith [0, 1, 2] [0, 0, 0] T_PRE (- BIN_WIDTH) TOL MIN_CONSECUTIVE =
     Some (Inr ([0, 1, 2], Some 0, [])) \<and>
   detect_log_phase exact_arith [0, 1] [0, 0] 0 DEFAULT_R2_MIN DEFAULT_OD_MIN DEFAULT_FRAC_K_MAX
     DEFAULT_MU_REL_MIN DEFAULT_MU_REL_MAX = Inr ([], None, None, None)"
  using unchecked_results zero_window_no_valid by simp

text \<open>
  Claim C10, as the code has it. The mask marks every index from the first to the last
  index of each selected window, and the log indices are one maximal run of the mask,
  the longest. A window that passed the fit is selected when its slope lies in the
  selection band around \<open>mu_max\<close>, or when no window that passed the fit has its slope
  in the band and it is the first of the steepest ones (the fallback of step 5). For a
  selected window that shares an index with the returned run: every index from its
  first to its last index is in the run, and if its valid indices are not consecutive,
  the run contains an index whose reading is below \<open>od_min\<close>. A selected window that
  lies in another, shorter run of the mask leaves no index in the result.
\<close>

theorem log_run_covers_overlapping_window:
  assumes res: "detect_log_phase fl t y window_size r2_min od_min frac_k_max mu_rel_min mu_rel_max =
      Inr (li, Some mu_max, mm, Some K_est)"
    and k: "k \<in> set (window_positions (valid_indices_of y od_min) window_size)"
    and fit: "window_fit fl t y window_size r2_min frac_k_max K_est (valid_indices_of y od_min) k =
      Inr (Some w)"
    and sel: "within_band fl mu_rel_min mu_rel_max mu_max (win_slope w) \<or>
      (\<forall>k' \<in> set (window_positions (valid_indices_of y od_min) window_size). \<forall>w'.
          window_fit fl t y window_size r2_min frac_k_max K_est (valid_indices_of y od_min) k' =
            Inr (Some w') \<longrightarrow>
          \<not> within_band fl mu_rel_min mu_rel_max mu_max (win_slope w') \<and>
          win_slope w' \<le> win_slope w \<and> (k' < k \<longrightarrow> win_slope w' < win_slope w))"
    and overlap: "\<exists>i \<in> set li. win_start w \<le> i \<and> i \<le> win_end w"
  shows "(\<forall>i. win_start w \<le> i \<and> i \<le> win_end w \<longrightarrow> i \<in> set li) \<and>
     (\<not> consecutive_block (py_slice (valid_indices_of y od_min) (int k) (int k + window_size))
        \<longrightarrow> (\<exists>i \<in> set li. y ! i < od_min))"
proof -
  let ?valid = "valid_indices_of y od_min"
  let ?fit = "window_fit fl t y window_size r2_min frac_k_max K_est ?valid"
  let ?ks = "window_positions ?valid window_size"
  let ?idxs = "py_slice ?valid (int k) (int k + window_size)"
  let ?g = "\<lambda>k. fit_result (?fit k)"
  from overlap have ne: "li \<noteq> []" by auto
  from detect_log_phase_unfold [OF res ne] obtain good lw flags where
    scan: "scan_windows ?fit ?ks [] = Inr good"
    and lw: "select_log_windows fl mu_rel_min mu_rel_max mu_max good = Inr lw"
    and mk: "mark_windows (length t) lw = Inr flags"
    and run: "py_max_by length (mask_runs flags) = Inr li"
    by auto
  have allr: "\<forall>k \<in> set ?ks. \<exists>r. ?fit k = Inr r" by (rule scan_windows_Inr [OF scan])
  have "scan_windows ?fit ?ks [] = Inr ([] @ List.map_filter ?g ?ks)"
    by (rule scan_windows_ok [OF allr])
  with scan have good: "good = List.map_filter ?g ?ks" by simp
  have gk: "?g k = Some w" by (simp add: fit fit_result_def)
  have wg: "w \<in> set good"
    unfolding good using k gk by (rule map_filter_memI [where g = "?g"])
  then have gne: "good \<noteq> []" by auto
  have fitted: "\<exists>k' \<in> set ?ks. ?fit k' = Inr (Some a)" if "a \<in> set good" for a
  proof -
    from map_filter_mem [OF that [unfolded good]] obtain k' where
      k': "k' \<in> set ?ks" "?g k' = Some a" by blast
    from allr k'(1) obtain r where "?fit k' = Inr r" by blast
    with k'(2) have "?fit k' = Inr (Some a)" by (simp add: fit_result_def)
    with k'(1) show ?thesis by blast
  qed
  have wl: "w \<in> set lw"
  proof (cases "within_band fl mu_rel_min mu_rel_max mu_max (win_slope w)")
    case True
    from select_log_windows_spec [OF gne, of fl mu_rel_min mu_rel_max mu_max] lw wg True
    show ?thesis by auto
  next
    case False
    with sel have fb: "\<forall>k' \<in> set ?ks. \<forall>w'. ?fit k' = Inr (Some w') \<longrightarrow>
          \<not> within_band fl mu_rel_min mu_rel_max mu_max (win_slope w') \<and>
          win_slope w' \<le> win_slope w \<and> (k' < k \<longrightarrow> win_slope w' < win_slope w)"
      by blast
    define N where "N = nat (int (length ?valid) - window_size + 1)"
    have ks: "?ks = [0..<N]" by (simp add: window_positions_def N_def)
    have kN: "k < N" using k unfolding ks by simp
    have split: "[0..<N] = [0..<k] @ k # [Suc k..<N]"
      using kN by (metis le0 upt_add_eq_append upt_conv_Cons le_add_diff_inverse less_imp_le_nat)
    have gsplit: "good = List.map_filter ?g [0..<k] @ w # List.map_filter ?g [Suc k..<N]"
      unfolding good ks by (subst split) (simp add: map_filter_append map_filter_simps gk)
    have sub1: "set [0..<k] \<subseteq> set ?ks" and sub2: "set [Suc k..<N] \<subseteq> set ?ks"
      unfolding ks using kN by auto
    have lo: "\<forall>a \<in> set (List.map_filter ?g [0..<k]). win_slope a < win_slope w"
    proof
      fix a assume "a \<in> set (List.map_filter ?g [0..<k])"
      from map_filter_mem [OF this] obtain k' where
        k': "k' \<in> set [0..<k]" "?g k' = Some a" by blast
      then have kk: "k' \<in> set ?ks" "k' < k" using sub1 by auto
      from allr kk(1) obtain r where "?fit k' = Inr r" by blast
      with k'(2) have "?fit k' = Inr (Some a)" by (simp add: fit_result_def)
      with fb kk show "win_slope a < win_slope w" by blast
    qed
    have hi: "\<forall>a \<in> set (List.map_filter ?g [Suc k..<N]). win_slope a \<le> win_slope w"
    proof
      fix a assume "a \<in> set (List.map_filter ?g [Suc k..<N])"
      from map_filter_mem [OF this] obtain k' where
        k': "k' \<in> set [Suc k..<N]" "?g k' = Some a" by blast
      then have kk: "k' \<in> set ?ks" using sub2 by auto
      from allr kk obtain r where "?fit k' = Inr r" by blast
      with k'(2) have "?fit k' = Inr (Some a)" by (simp add: fit_result_def)
      with fb kk show "win_slope a \<le> win_slope w" by blast
    qed
    have none: "\<forall>a \<in> set good. \<not> within_band fl mu_rel_min mu_rel_max mu_max (win_slope a)"
    proof
      fix a assume "a \<in> set good"
      from fitted [OF this] obtain k' where "k' \<in> set ?ks" "?fit k' = Inr (Some a)"
        by blast
      with fb show "\<not> within_band fl mu_rel_min mu_rel_max mu_max (win_slope a)" by blast
    qed
    from select_log_windows_fallback [OF gsplit lo hi none] lw show ?thesis by simp
  qed
  from overlap obtain i0 where i0: "i0 \<in> set li" "win_start w \<le> i0" "i0 \<le> win_end w" by blast
  have "\<not> (win_start w \<le> win_end w \<and> length t \<le> win_end w)"
    using mk wl by (auto simp: mark_windows_def split: if_splits)
  then have en: "win_end w < length t" using i0 by simp
  from mark_windows_spec [OF mk] have flen: "length flags = length t"
    and fnth: "\<forall>j<length t. flags ! j = (\<exists>w \<in> set lw. win_start w \<le> j \<and> j \<le> win_end w)"
    by auto
  have marked: "flags ! j" if "win_start w \<le> j" "j \<le> win_end w" for j
    using fnth that en wl by auto
  from py_max_by_mem [OF run] mask_runs_spec [of flags] obtain a b where
    ab: "li = [a..<b]" and mr: "maximal_run flags a b" by blast
  from i0(1) ab have a0: "a \<le> i0" "i0 < b" by auto
  have lo: "a \<le> win_start w"
  proof (rule ccontr)
    assume "\<not> a \<le> win_start w"
    then have "win_start w \<le> a - 1" "a - 1 \<le> win_end w" "a \<noteq> 0" using a0 i0 by auto
    then have "flags ! (a - 1)" using marked by blast
    with mr \<open>a \<noteq> 0\<close> show False by (auto simp: maximal_run_def)
  qed
  have hi: "win_end w < b"
  proof (rule ccontr)
    assume "\<not> win_end w < b"
    then have "win_start w \<le> b" "b \<le> win_end w" using a0 i0 by auto
    then have "flags ! b" "b \<noteq> length flags" using marked en flen by auto
    with mr show False by (auto simp: maximal_run_def)
  qed
  have cover: "\<forall>i. win_start w \<le> i \<and> i \<le> win_end w \<longrightarrow> i \<in> set li"
    using lo hi ab by auto
  have gap: "\<exists>i \<in> set li. y ! i < od_min" if nb: "\<not> consecutive_block ?idxs"
  proof -
    from window_fit_Some [OF fit] have ine: "?idxs \<noteq> []"
      and st: "win_start w = hd ?idxs" and en': "win_end w = last ?idxs" by auto
    obtain m n where mn: "?idxs = take n (drop m ?valid)" using py_slice_take_drop by blast
    have sv: "sorted_wrt (<) ?valid" by (rule valid_indices_sorted)
    have "sorted_wrt (<) (drop m ?valid)" using sv by (rule sorted_wrt_drop)
    then have si: "sorted_wrt (<) ?idxs" unfolding mn by (rule sorted_wrt_take)
    from sorted_gap [OF si nb] obtain i where
      i: "hd ?idxs < i" "i < last ?idxs" "i \<notin> set ?idxs" by blast
    have "i \<notin> set ?valid"
    proof
      assume "i \<in> set ?valid"
      from slice_contiguous [OF sv _ this, of n m] ine i(1,2) mn have "i \<in> set ?idxs" by simp
      with i(3) show False by simp
    qed
    moreover have "last ?idxs \<in> set ?valid"
      using ine py_slice_subset [of ?valid "int k" "int k + window_size"] last_in_set by blast
    then have "last ?idxs < length y" using valid_indices_bound [of y od_min] by auto
    then have "i < length y" using i(2) by simp
    ultimately have "\<not> od_min \<le> y ! i" using valid_indices_complete by blast
    then have "y ! i < od_min" by simp
    moreover have "i \<in> set li" using cover i(1,2) st en' by auto
    ultimately show ?thesis by blast
  qed
  show ?thesis using cover gap by blast
qed

theorem log_run_covers_overlapping_window_witness:
  "detect_log_phase exact_arith gap_t gap_y 2 DEFAULT_R2_MIN 1 1 2 3 =
     Inr ([0, 1, 2], Some 1, Some 1, Some (exp 100)) \<and>
   \<not> within_band exact_arith 2 3 1 (win_slope (0, 2, 1, 1)) \<and>
   (\<exists>i \<in> set [0, 1, 2]. gap_y ! i < 1)"
proof -
  let ?fit = "window_fit exact_arith gap_t gap_y 2 DEFAULT_R2_MIN 1 (exp 100) (valid_indices_of gap_y 1)"
  have k: "0 \<in> set (window_positions (valid_indices_of gap_y 1) 2)"
    unfolding gap_valid_eq gap_positions by simp
  have fit: "?fit 0 = Inr (Some (0, 2, 1, 1))"
    unfolding gap_valid_eq by (rule gap_fit_good)
  have nband: "\<not> within_band exact_arith 2 3 1 (win_slope (0, 2, 1, 1))"
    by (simp add: within_band_def exact_arith_def exact_with_simps)
  have only: "w' = (0, 2, 1, 1)"
    if "k' \<in> set (window_positions (valid_indices_of gap_y 1) 2)" "?fit k' = Inr (Some w')"
    for k' w'
  proof -
    from that(1) have "k' = 0 \<or> k' = 1 \<or> k' = 2 \<or> k' = 3"
      unfolding gap_valid_eq gap_positions by simp
    with that(2) show ?thesis
      unfolding gap_valid_eq using gap_fit_good gap_fit_skip by auto
  qed
  have sel: "within_band exact_arith 2 3 1 (win_slope (0, 2, 1, 1)) \<or>
      (\<forall>k' \<in> set (window_positions (valid_indices_of gap_y 1) 2). \<forall>w'.
          ?fit k' = Inr (Some w') \<longrightarrow>
          \<not> within_band exact_arith 2 3 1 (win_slope w') \<and>
          win_slope w' \<le> win_slope (0::nat, 2::nat, 1::real, 1::real) \<and>
          (k' < 0 \<longrightarrow> win_slope w' < win_slope (0::nat, 2::nat, 1::real, 1::real)))"
  proof (intro disjI2 ballI allI impI)
    fix k' w'
    assume "k' \<in> set (window_positions (valid_indices_of gap_y 1) 2)"
      and "?fit k' = Inr (Some w')"
    then have "w' = (0, 2, 1, 1)" by (rule only)
    with nband show "\<not> within_band exact_arith 2 3 1 (win_slope w') \<and>
          win_slope w' \<le> win_slope (0::nat, 2::nat, 1::real, 1::real) \<and>
          (k' < 0 \<longrightarrow> win_slope w' < win_slope (0::nat, 2::nat, 1::real, 1::real))"
      by simp
  qed
  have ov: "\<exists>i \<in> set [0, 1, 2::nat]. win_start (0::nat, 2::nat, 1::real, 1::real) \<le> i \<and>
      i \<le> win_end (0::nat, 2::nat, 1::real, 1::real)"
    by simp
  have nb: "\<not> consecutive_block (py_slice (valid_indices_of gap_y 1) (int 0) (int 0 + 2))"
    unfolding gap_valid_eq gap_slices by (simp add: consecutive_block_def)
  from log_run_covers_overlapping_window [OF gap_result(2) k fit sel ov] nb nband gap_result(2)
  show ?thesis by blast
qed

text \<open>
  The claim as written fails when the window with the gap is not in the longest run. In
  the growth curve the window of the valid indices 0 and 2 is selected (its slope is
  \<open>mu_max\<close>) and spans the invalid index 1, but the returned run is 4 to 7, where every
  reading is at least \<open>od_min = 1\<close>.
\<close>

theorem gap_window_outside_run_counterexample:
  "detect_log_phase exact_arith growth_t growth_y 2 DEFAULT_R2_MIN 1 1
     DEFAULT_MU_REL_MIN DEFAULT_MU_REL_MAX =
     Inr ([4, 5, 6, 7], Some 1, Some 1, Some (exp 100)) \<and>
   window_fit exact_arith growth_t growth_y 2 DEFAULT_R2_MIN 1 (exp 100)
     (valid_indices_of growth_y 1) 0 = Inr (Some (0, 2, 1, 1)) \<and>
   within_band exact_arith DEFAULT_MU_REL_MIN DEFAULT_MU_REL_MAX 1 (win_slope (0, 2, 1, 1)) \<and>
   py_slice (valid_indices_of growth_y 1) (int 0) (int 0 + 2) = [0, 2] \<and>
   growth_y ! 1 < 1 \<and>
   1 \<le> growth_y ! 4 \<and> 1 \<le> growth_y ! 5 \<and> 1 \<le> growth_y ! 6 \<and> 1 \<le> growth_y ! 7"
  using growth_result growth_fit_good(1) growth_slices(1)
  unfolding growth_valid_eq
  by (simp add: growth_y_def within_band_def exact_arith_def exact_with_simps
      DEFAULT_MU_REL_MIN_def DEFAULT_MU_REL_MAX_def)

end
